theory Spec2Isabelle
  imports Main "HOL-Library.Sublist" "HOL-Library.Multiset"
begin

unbundle bit_operations_syntax

section \<open>Python values and errors\<close>

text \<open>
  The module \<^verbatim>\<open>util/DynamicBlacklist.py\<close> is embedded function by function. Exceptions are
  values: a call returns \<open>Inl e\<close> where the Python raises \<open>e\<close>, \<open>Inr v\<close> where it returns
  \<open>v\<close>. Python integers are \<open>int\<close>, lengths and prefix lengths are \<open>nat\<close>, a Python
  \<^verbatim>\<open>str\<close> or \<^verbatim>\<open>bytes\<close> value is a \<open>string\<close> (a list of 8-bit characters; text with code
  points above 255 is outside the model), a Python \<^verbatim>\<open>set\<close> of strings is a \<open>string set\<close>.

  \<open>AddressValueError\<close> and \<open>NetmaskValueError\<close> are the two subclasses of \<open>ValueError\<close> of
  the standard module \<^verbatim>\<open>ipaddress\<close>; the constructor \<open>ValueError\<close> stands for a
  \<open>ValueError\<close> that is neither. \<open>HTTPError\<close> and \<open>ConnectionError\<close> are subclasses of
  \<^verbatim>\<open>requests.exceptions.RequestException\<close>. \<open>ScrapeError\<close> is the module's own class.
\<close>

datatype error =
    AddressValueError
  | NetmaskValueError
  | ValueError
  | ScrapeError
  | HTTPError
  | ConnectionError

subsection \<open>Strings\<close>

text \<open>\<^verbatim>\<open>s.split(sep)\<close> for a one-character separator: never the empty list.\<close>

fun split :: "char \<Rightarrow> string \<Rightarrow> string list" where
  "split sep [] = [[]]"
| "split sep (x # xs) =
     (if x = sep then [] # split sep xs
      else (x # hd (split sep xs)) # tl (split sep xs))"

text \<open>\<^verbatim>\<open>sep.join(parts)\<close>.\<close>

fun join :: "string \<Rightarrow> string list \<Rightarrow> string" where
  "join sep [] = []"
| "join sep [p] = p"
| "join sep (p # q # ps) = p @ sep @ join sep (q # ps)"

text \<open>\<^verbatim>\<open>s.isascii() and s.isdigit()\<close>: a non-empty string of the digits 0 to 9.\<close>

definition is_digit :: "char \<Rightarrow> bool" where
  "is_digit c = (c \<in> set ''0123456789'')"

definition isascii_isdigit :: "string \<Rightarrow> bool" where
  "isascii_isdigit s = (s \<noteq> [] \<and> list_all is_digit s)"

definition digit_val :: "char \<Rightarrow> int" where
  "digit_val c = of_char c - 48"

definition digit_char :: "nat \<Rightarrow> char" where
  "digit_char d = ''0123456789'' ! d"

text \<open>\<^verbatim>\<open>int(s, 10)\<close> on a string of decimal digits.\<close>

definition int_of_str :: "string \<Rightarrow> int" where
  "int_of_str s = foldl (\<lambda>acc c. 10 * acc + digit_val c) 0 s"

text \<open>\<^verbatim>\<open>str(n)\<close> for a non-negative integer: decimal, no leading zero.\<close>

fun str_of_nat :: "nat \<Rightarrow> string" where
  "str_of_nat n =
     (if n < 10 then [digit_char n] else str_of_nat (n div 10) @ [digit_char (n mod 10)])"

declare str_of_nat.simps [simp del]

text \<open>
  \<^verbatim>\<open>str(b)\<close> for a \<^verbatim>\<open>bytes\<close> value \<open>b\<close> is its \<^verbatim>\<open>repr\<close>: the letter b, a quote, the bytes
  with the quote, the backslash, tab, newline, carriage return and every byte outside
  the printable ASCII range escaped, and the quote again. The quote is the apostrophe,
  unless the bytes hold an apostrophe and no double quote.
\<close>

definition backslash :: char where
  "backslash = CHR 0x5C"

definition apostrophe :: char where
  "apostrophe = CHR 0x27"

definition dquote :: char where
  "dquote = CHR 0x22"

definition hex_digit :: "nat \<Rightarrow> char" where
  "hex_digit d = ''0123456789abcdef'' ! d"

definition repr_quote :: "string \<Rightarrow> char" where
  "repr_quote bs = (if apostrophe \<in> set bs \<and> dquote \<notin> set bs then dquote else apostrophe)"

definition repr_byte :: "char \<Rightarrow> char \<Rightarrow> string" where
  "repr_byte quote c =
     (if c = quote \<or> c = backslash then [backslash, c]
      else if c = CHR 0x09 then [backslash, CHR ''t'']
      else if c = CHR 0x0A then [backslash, CHR ''n'']
      else if c = CHR 0x0D then [backslash, CHR ''r'']
      else if (of_char c :: nat) < 32 \<or> (of_char c :: nat) \<ge> 127
        then [backslash, CHR ''x'', hex_digit (of_char c div 16), hex_digit (of_char c mod 16)]
      else [c])"

definition str_of_bytes :: "string \<Rightarrow> string" where
  "str_of_bytes bs =
     (let quote = repr_quote bs
      in CHR ''b'' # quote # concat (map (repr_byte quote) bs) @ [quote])"

section \<open>The standard module ipaddress\<close>

text \<open>
  The functions of CPython's \<^verbatim>\<open>ipaddress\<close> that the module calls, for a string argument:
  \<^verbatim>\<open>IPv4Address(s)\<close>, \<^verbatim>\<open>IPv4Network(s)\<close> (strict), \<^verbatim>\<open>address in network\<close>, iteration
  over a network and \<^verbatim>\<open>str(address)\<close>. An address object is its integer \<^verbatim>\<open>_ip\<close>.
  The definitions follow \<^verbatim>\<open>Lib/ipaddress.py\<close> of CPython 3.11, where an octet with a
  leading zero is rejected.
\<close>

definition ALL_ONES :: int where
  "ALL_ONES = 2 ^ 32 - 1"

definition max_prefixlen :: nat where
  "max_prefixlen = 32"

text \<open>
  \<^verbatim>\<open>_parse_octet\<close>: raises a plain \<open>ValueError\<close>. The conversion
  \<^verbatim>\<open>int(octet_str, 10)\<close> comes after the check of the length, on at most three digits.
\<close>

definition parse_octet :: "string \<Rightarrow> error + int" where
  "parse_octet octet_str =
     (if octet_str = [] then Inl ValueError
      else if \<not> isascii_isdigit octet_str then Inl ValueError
      else if length octet_str > 3 then Inl ValueError
      else if octet_str \<noteq> ''0'' \<and> hd octet_str = CHR ''0'' then Inl ValueError
      else let octet_int = int_of_str octet_str
           in if octet_int > 255 then Inl ValueError else Inr octet_int)"

text \<open>\<^verbatim>\<open>map(f, xs)\<close> consumed to the end: the first exception wins.\<close>

fun map_result :: "('a \<Rightarrow> error + 'b) \<Rightarrow> 'a list \<Rightarrow> error + 'b list" where
  "map_result f [] = Inr []"
| "map_result f (x # xs) =
     (case f x of
        Inl e \<Rightarrow> Inl e
      | Inr y \<Rightarrow> (case map_result f xs of Inl e \<Rightarrow> Inl e | Inr ys \<Rightarrow> Inr (y # ys)))"

text \<open>\<^verbatim>\<open>int.from_bytes(octets, 'big')\<close>.\<close>

definition from_bytes_big :: "int list \<Rightarrow> int" where
  "from_bytes_big bs = foldl (\<lambda>acc b. acc * 256 + b) 0 bs"

text \<open>\<^verbatim>\<open>_ip_int_from_string\<close>: every failure is an \<open>AddressValueError\<close>.\<close>

definition ip_int_from_string :: "string \<Rightarrow> error + int" where
  "ip_int_from_string ip_str =
     (if ip_str = [] then Inl AddressValueError
      else let octets = split (CHR ''.'') ip_str
           in if length octets \<noteq> 4 then Inl AddressValueError
              else (case map_result parse_octet octets of
                      Inl e \<Rightarrow> Inl AddressValueError
                    | Inr bs \<Rightarrow> Inr (from_bytes_big bs)))"

text \<open>\<^verbatim>\<open>IPv4Address(address)\<close> for a string.\<close>

definition IPv4Address :: "string \<Rightarrow> error + int" where
  "IPv4Address addr_str =
     (if CHR ''/'' \<in> set addr_str then Inl AddressValueError
      else ip_int_from_string addr_str)"

text \<open>\<^verbatim>\<open>_split_optional_netmask\<close>.\<close>

definition split_optional_netmask :: "string \<Rightarrow> error + string list" where
  "split_optional_netmask address =
     (let addr = split (CHR ''/'') address
      in if length addr > 2 then Inl AddressValueError else Inr addr)"

text \<open>
  \<^verbatim>\<open>_split_addr_prefix\<close>: the address part and the mask part, which is the integer
  \<^verbatim>\<open>_max_prefixlen\<close> when the string has no slash.
\<close>

datatype mask_arg = MaskInt nat | MaskStr string

definition split_addr_prefix :: "string \<Rightarrow> error + string \<times> mask_arg" where
  "split_addr_prefix address =
     (case split_optional_netmask address of
        Inl e \<Rightarrow> Inl e
      | Inr addr \<Rightarrow>
          if length addr > 1 then Inr (addr ! 0, MaskStr (addr ! 1))
          else Inr (addr ! 0, MaskInt max_prefixlen))"

text \<open>\<^verbatim>\<open>_ip_int_from_prefix\<close>.\<close>

definition ip_int_from_prefix :: "nat \<Rightarrow> int" where
  "ip_int_from_prefix prefixlen = ALL_ONES XOR (drop_bit prefixlen ALL_ONES)"

text \<open>\<^verbatim>\<open>n.bit_length()\<close>.\<close>

function bit_length_pos :: "int \<Rightarrow> nat" where
  "bit_length_pos n = (if n \<le> 0 then 0 else Suc (bit_length_pos (n div 2)))"
  by pat_completeness auto
termination
  by (relation "measure nat") auto

declare bit_length_pos.simps [simp del]

definition bit_length :: "int \<Rightarrow> nat" where
  "bit_length n = bit_length_pos \<bar>n\<bar>"

text \<open>\<^verbatim>\<open>_count_righthand_zero_bits\<close>.\<close>

definition count_righthand_zero_bits :: "int \<Rightarrow> nat \<Rightarrow> nat" where
  "count_righthand_zero_bits number bits =
     (if number = 0 then bits
      else min bits (bit_length (NOT number AND (number - 1))))"

text \<open>\<^verbatim>\<open>_prefix_from_ip_int\<close>: raises a plain \<open>ValueError\<close>.\<close>

definition prefix_from_ip_int :: "int \<Rightarrow> error + nat" where
  "prefix_from_ip_int ip_int =
     (let trailing_zeroes = count_righthand_zero_bits ip_int max_prefixlen;
          prefixlen = max_prefixlen - trailing_zeroes;
          leading_ones = drop_bit trailing_zeroes ip_int;
          all_ones = push_bit prefixlen 1 - 1
      in if leading_ones \<noteq> all_ones then Inl ValueError else Inr prefixlen)"

text \<open>
  \<^verbatim>\<open>int(s)\<close> on a string of ASCII digits: the interpreter refuses a string of more
  than 4300 digits (\<^verbatim>\<open>sys.int_info.default_max_str_digits\<close>, leading zeros counted)
  with a \<open>ValueError\<close>.
\<close>

definition max_str_digits :: nat where
  "max_str_digits = 4300"

definition int_of_digit_str :: "string \<Rightarrow> error + int" where
  "int_of_digit_str s =
     (if length s > max_str_digits then Inl ValueError else Inr (int_of_str s))"

text \<open>
  \<^verbatim>\<open>_prefix_from_prefix_string\<close>: a \<open>ValueError\<close> of \<^verbatim>\<open>int(prefixlen_str)\<close> is
  reported as an invalid netmask, like a value out of range.
\<close>

definition prefix_from_prefix_string :: "string \<Rightarrow> error + nat" where
  "prefix_from_prefix_string prefixlen_str =
     (if \<not> isascii_isdigit prefixlen_str then Inl NetmaskValueError
      else (case int_of_digit_str prefixlen_str of
              Inl e \<Rightarrow> Inl NetmaskValueError
            | Inr prefixlen \<Rightarrow>
                if \<not> (0 \<le> prefixlen \<and> prefixlen \<le> int max_prefixlen)
                then Inl NetmaskValueError
                else Inr (nat prefixlen)))"

text \<open>\<^verbatim>\<open>_prefix_from_ip_string\<close>: a dotted netmask, then a dotted hostmask.\<close>

definition prefix_from_ip_string :: "string \<Rightarrow> error + nat" where
  "prefix_from_ip_string ip_str =
     (case ip_int_from_string ip_str of
        Inl e \<Rightarrow> Inl NetmaskValueError
      | Inr ip_int \<Rightarrow>
          (case prefix_from_ip_int ip_int of
             Inr p \<Rightarrow> Inr p
           | Inl e \<Rightarrow>
               (case prefix_from_ip_int (ip_int XOR ALL_ONES) of
                  Inr p \<Rightarrow> Inr p
                | Inl e' \<Rightarrow> Inl NetmaskValueError)))"

text \<open>
  \<^verbatim>\<open>_make_netmask\<close>: the netmask and the prefix length. Its cache stores what the
  computation returns under the argument, so it is left out.
\<close>

definition make_netmask :: "mask_arg \<Rightarrow> error + int \<times> nat" where
  "make_netmask arg =
     (case (case arg of
              MaskInt prefixlen \<Rightarrow>
                if \<not> prefixlen \<le> max_prefixlen then Inl NetmaskValueError else Inr prefixlen
            | MaskStr s \<Rightarrow>
                (case prefix_from_prefix_string s of
                   Inr p \<Rightarrow> Inr p
                 | Inl e \<Rightarrow> prefix_from_ip_string s)) of
        Inl e \<Rightarrow> Inl e
      | Inr prefixlen \<Rightarrow> Inr (ip_int_from_prefix prefixlen, prefixlen))"

record ipv4network =
  network_address :: int
  netmask :: int
  prefixlen :: nat

text \<open>\<^verbatim>\<open>IPv4Network(address)\<close> for a string, with the default \<^verbatim>\<open>strict=True\<close>.\<close>

definition IPv4Network :: "string \<Rightarrow> error + ipv4network" where
  "IPv4Network address =
     (case split_addr_prefix address of
        Inl e \<Rightarrow> Inl e
      | Inr (addr, mask_part) \<Rightarrow>
          (case IPv4Address addr of
             Inl e \<Rightarrow> Inl e
           | Inr na \<Rightarrow>
               (case make_netmask mask_part of
                  Inl e \<Rightarrow> Inl e
                | Inr (nm, pl) \<Rightarrow>
                    if na AND nm \<noteq> na then Inl ValueError
                    else Inr \<lparr>network_address = na, netmask = nm, prefixlen = pl\<rparr>)))"

definition hostmask :: "ipv4network \<Rightarrow> int" where
  "hostmask net = netmask net XOR ALL_ONES"

definition broadcast_address :: "ipv4network \<Rightarrow> int" where
  "broadcast_address net = network_address net OR hostmask net"

text \<open>\<^verbatim>\<open>other in net\<close> for an IPv4 address \<open>other\<close>.\<close>

definition contains :: "ipv4network \<Rightarrow> int \<Rightarrow> bool" where
  "contains net other = (other AND netmask net = network_address net)"

text \<open>
  \<^verbatim>\<open>iter(net)\<close>: the addresses of \<^verbatim>\<open>range(network, broadcast + 1)\<close>. The address
  constructor's range check cannot fail on them (lemma \<open>iter_in_range\<close> below).
\<close>

definition iter :: "ipv4network \<Rightarrow> int list" where
  "iter net = [network_address net..broadcast_address net]"

text \<open>
  \<^verbatim>\<open>ip_int.to_bytes(4, 'big')\<close> and \<^verbatim>\<open>_string_from_ip_int\<close>, which is \<^verbatim>\<open>str(address)\<close>.
  The integer of an address object is at least 0 and less than \<open>2 ^ 32\<close>, where
  \<^verbatim>\<open>to_bytes\<close> does not overflow.
\<close>

definition to_bytes4 :: "int \<Rightarrow> nat list" where
  "to_bytes4 ip_int =
     [nat (ip_int div 2 ^ 24 mod 256), nat (ip_int div 2 ^ 16 mod 256),
      nat (ip_int div 2 ^ 8 mod 256), nat (ip_int mod 256)]"

definition string_from_ip_int :: "int \<Rightarrow> string" where
  "string_from_ip_int ip_int = join ''.'' (map str_of_nat (to_bytes4 ip_int))"

section \<open>The standard module re\<close>

text \<open>
  The pattern of the module is a sequence of character classes, one of them under a greedy
  star. \<open>re_match\<close> is the backtracking matcher of \<^verbatim>\<open>re\<close> on such a sequence: it
  returns the length of the match that starts at the head of the string. A greedy star
  takes one more character first and gives it back only when the rest fails.
\<close>

datatype cclass = Lit char | Dot | In_set "char list" | Not_in "char list"

datatype atom = One cclass | Star cclass

fun cmatch :: "cclass \<Rightarrow> char \<Rightarrow> bool" where
  "cmatch (Lit c) x = (x = c)"
| "cmatch Dot x = (x \<noteq> CHR 0x0A)"
| "cmatch (In_set cs) x = (x \<in> set cs)"
| "cmatch (Not_in cs) x = (x \<notin> set cs)"

fun re_match :: "atom list \<Rightarrow> string \<Rightarrow> nat option" where
  "re_match [] s = Some 0"
| "re_match (One c # r) [] = None"
| "re_match (One c # r) (x # xs) =
     (if cmatch c x then map_option Suc (re_match r xs) else None)"
| "re_match (Star c # r) [] = re_match r []"
| "re_match (Star c # r) (x # xs) =
     (if cmatch c x
      then (case re_match (Star c # r) xs of
              Some n \<Rightarrow> Some (Suc n)
            | None \<Rightarrow> re_match r (x # xs))
      else re_match r (x # xs))"

text \<open>
  \<^verbatim>\<open>re.findall(pattern, s)\<close> for a pattern without groups: the matches from left to
  right, each search starting where the last match ended (one character further after an
  empty match).
\<close>

function findall :: "atom list \<Rightarrow> string \<Rightarrow> string list" where
  "findall p [] = (case re_match p [] of None \<Rightarrow> [] | Some n \<Rightarrow> [[]])"
| "findall p (x # xs) =
     (case re_match p (x # xs) of
        None \<Rightarrow> findall p xs
      | Some n \<Rightarrow> take n (x # xs) # findall p (drop (n - 1) xs))"
  by pat_completeness auto
termination
  by (relation "measure (\<lambda>(p, s). length s)") auto

text \<open>A string matches a pattern as a whole (the declarative reading of the pattern).\<close>

fun accepts :: "atom list \<Rightarrow> string \<Rightarrow> bool" where
  "accepts [] s = (s = [])"
| "accepts (One c # r) [] = False"
| "accepts (One c # r) (x # xs) = (cmatch c x \<and> accepts r xs)"
| "accepts (Star c # r) [] = accepts r []"
| "accepts (Star c # r) (x # xs) =
     (accepts r (x # xs) \<or> (cmatch c x \<and> accepts (Star c # r) xs))"

section \<open>The module\<close>

text \<open>
  \<^verbatim>\<open>MICROSOFT_DOWNLOAD_REGEX\<close>: the two dots of the host name are not escaped in the
  source, so they match any character but a newline.
\<close>

definition literal :: "string \<Rightarrow> atom list" where
  "literal s = map (\<lambda>c. One (Lit c)) s"

definition MICROSOFT_DOWNLOAD_REGEX :: "atom list" where
  "MICROSOFT_DOWNLOAD_REGEX =
     literal ''https://download'' @ [One Dot] @ literal ''microsoft'' @ [One Dot]
     @ literal ''com/download'' @ [Star (Not_in [dquote]), One (In_set ''.'')]
     @ literal ''json''"

text \<open>
  What \<^verbatim>\<open>requests.get\<close> hands back is a parameter of the model: \<open>Inl e\<close> when the
  transport raised, \<open>Inr response\<close> otherwise. \<^verbatim>\<open>raise_for_status\<close> raises an
  \<open>HTTPError\<close> on a status from 400 to 599.
\<close>

record response =
  status_code :: nat
  content :: string

definition raise_for_status :: "response \<Rightarrow> error + unit" where
  "raise_for_status r =
     (if 400 \<le> status_code r \<and> status_code r < 600 then Inl HTTPError else Inr ())"

text \<open>
  \<^verbatim>\<open>get_azure_ip_ranges_download\<close>. The value bound to \<^verbatim>\<open>files\<close> is a Python object
  that the source compares with \<^verbatim>\<open>None\<close>: \<open>Some l\<close> is the list \<open>l\<close>. The handler
  re-raises the exception it caught. \<^verbatim>\<open>list(set(files))\<close> has the elements of
  \<open>files\<close> once each, in an order Python does not fix; the model keeps the order of
  \<open>remdups\<close> and the theorems speak of the elements only.
\<close>

definition get_azure_ip_ranges_download :: "error + response \<Rightarrow> error + string list" where
  "get_azure_ip_ranges_download fetched =
     (case fetched of
        Inl e \<Rightarrow> Inl e
      | Inr response \<Rightarrow>
          (case raise_for_status response of
             Inl e \<Rightarrow> Inl e
           | Inr u \<Rightarrow>
               (case Some (findall MICROSOFT_DOWNLOAD_REGEX (str_of_bytes (content response))) of
                  None \<Rightarrow> Inl ScrapeError
                | Some files \<Rightarrow> Inr (remdups files))))"

text \<open>
  \<^verbatim>\<open>parse_azure_ip_ranges\<close>: the body ends after \<^verbatim>\<open>raise_for_status\<close>, so the call
  returns \<^verbatim>\<open>None\<close>, which is \<open>()\<close> here.
\<close>

definition parse_azure_ip_ranges :: "error + response \<Rightarrow> error + unit" where
  "parse_azure_ip_ranges fetched =
     (case fetched of
        Inl e \<Rightarrow> Inl e
      | Inr response \<Rightarrow>
          (case raise_for_status response of
             Inl e \<Rightarrow> Inl e
           | Inr u \<Rightarrow> Inr ()))"

text \<open>\<^verbatim>\<open>get_all_ips_from_cidr\<close>.\<close>

definition get_all_ips_from_cidr :: "string \<Rightarrow> error + string set" where
  "get_all_ips_from_cidr ip_in_cidr_notation =
     (case IPv4Network ip_in_cidr_notation of
        Inl e \<Rightarrow> Inl e
      | Inr ip_range \<Rightarrow>
          Inr (fold (\<lambda>ip ips. insert (string_from_ip_int ip) ips) (iter ip_range) {}))"

text \<open>\<^verbatim>\<open>get_all_ips_from_cidr_array\<close>: the loop, with the set built so far.\<close>

fun cidr_array_loop :: "string set \<Rightarrow> string list \<Rightarrow> error + string set" where
  "cidr_array_loop ips [] = Inr ips"
| "cidr_array_loop ips (ip_range # rest) =
     (case get_all_ips_from_cidr ip_range of
        Inl e \<Rightarrow> Inl e
      | Inr s \<Rightarrow> cidr_array_loop (ips \<union> s) rest)"

definition get_all_ips_from_cidr_array :: "string list \<Rightarrow> error + string set" where
  "get_all_ips_from_cidr_array array_of_ip_in_cidr_notation =
     cidr_array_loop {} array_of_ip_in_cidr_notation"

text \<open>
  The decoded Azure document: the dictionary under \<^verbatim>\<open>'values'\<close> is a list of
  categories, each a dictionary with the address prefixes under
  \<^verbatim>\<open>['properties']['addressPrefixes']\<close>. The records fix these keys, so a document that
  lacks one (a \<open>KeyError\<close> in Python) is not a value of the type.
\<close>

record properties =
  addressPrefixes :: "string list"

record category =
  name :: string
  properties :: properties

record azure_info =
  values_list :: "category list"

text \<open>
  \<^verbatim>\<open>reverse_search_ip_in_azure\<close>. The inner loop runs over the prefixes of one category
  with the list \<open>search\<close> built so far; the \<^verbatim>\<open>try\<close> encloses the parse of the block,
  the parse of \<open>ip\<close> and the test, and its handler catches \<open>AddressValueError\<close> only.
\<close>

fun search_ranges :: "string \<Rightarrow> category \<Rightarrow> string list \<Rightarrow> category list \<Rightarrow> error + category list" where
  "search_ranges ip cat [] search = Inr search"
| "search_ranges ip cat (str_cidr # ranges) search =
     (case IPv4Network str_cidr of
        Inl e \<Rightarrow>
          if e = AddressValueError then search_ranges ip cat ranges search else Inl e
      | Inr cidr \<Rightarrow>
          (case IPv4Address ip of
             Inl e \<Rightarrow>
               if e = AddressValueError then search_ranges ip cat ranges search else Inl e
           | Inr a \<Rightarrow>
               if contains cidr a then search_ranges ip cat ranges (search @ [cat])
               else search_ranges ip cat ranges search))"

fun search_categories :: "string \<Rightarrow> category list \<Rightarrow> category list \<Rightarrow> error + category list" where
  "search_categories ip [] search = Inr search"
| "search_categories ip (cat # categories) search =
     (case search_ranges ip cat (addressPrefixes (properties cat)) search of
        Inl e \<Rightarrow> Inl e
      | Inr search' \<Rightarrow> search_categories ip categories search')"

definition reverse_search_ip_in_azure :: "string \<Rightarrow> azure_info \<Rightarrow> error + category list" where
  "reverse_search_ip_in_azure ip azure_info_json =
     search_categories ip (values_list azure_info_json) []"

section \<open>Notions of the specification\<close>

text \<open>
  An address lies in a block when the block parses and contains it. The scan of
  \<open>reverse_search_ip_in_azure\<close> passes over a block that parses and over one whose parse
  raises \<open>AddressValueError\<close>.
\<close>

definition in_block :: "int \<Rightarrow> string \<Rightarrow> bool" where
  "in_block a str_cidr =
     (case IPv4Network str_cidr of Inl e \<Rightarrow> False | Inr cidr \<Rightarrow> contains cidr a)"

definition passes_scan :: "string \<Rightarrow> bool" where
  "passes_scan str_cidr =
     (case IPv4Network str_cidr of Inl e \<Rightarrow> e = AddressValueError | Inr cidr \<Rightarrow> True)"

definition matching_blocks :: "int \<Rightarrow> category \<Rightarrow> string list" where
  "matching_blocks a cat = filter (in_block a) (addressPrefixes (properties cat))"

text \<open>
  The characters that can follow the backslash of an escaped byte in \<open>str_of_bytes\<close>,
  and the lengths of all the prefixes of a string that a pattern accepts.
\<close>

definition inner1 :: "char \<Rightarrow> char set" where
  "inner1 q = {q, backslash, CHR ''t'', CHR ''n'', CHR ''r'', CHR ''x''}"

fun match_lengths :: "atom list \<Rightarrow> string \<Rightarrow> nat list" where
  "match_lengths [] s = [0]"
| "match_lengths (One c # r) [] = []"
| "match_lengths (One c # r) (x # xs) =
     (if cmatch c x then map Suc (match_lengths r xs) else [])"
| "match_lengths (Star c # r) [] = match_lengths r []"
| "match_lengths (Star c # r) (x # xs) =
     match_lengths r (x # xs)
     @ (if cmatch c x then map Suc (match_lengths (Star c # r) xs) else [])"

text \<open>
  A page prints as itself when \<open>str_of_bytes\<close> escapes none of its bytes. A pattern is
  safe for a character \<open>q\<close> when a \<open>q\<close> at the end of the string cannot end a match.
\<close>

fun snoc_safe :: "char \<Rightarrow> atom list \<Rightarrow> bool" where
  "snoc_safe q [] = True"
| "snoc_safe q (One c # r) = ((if cmatch c q then re_match r [] = None else True) \<and> snoc_safe q r)"
| "snoc_safe q (Star c # r) = (re_match r [] = None \<and> snoc_safe q r)"

definition prints_as_itself :: "string \<Rightarrow> bool" where
  "prints_as_itself bs = list_all (\<lambda>c. repr_byte (repr_quote bs) c = [c]) bs"

section \<open>Strict parsing of a network\<close>

lemma split_no_sep: "sep \<notin> set p \<Longrightarrow> split sep p = [p]"
  by (induction p) auto

lemma split_append_sep: "sep \<notin> set a \<Longrightarrow> split sep (a @ sep # r) = a # split sep r"
  by (induction a) auto

lemma digits_no_slash: "isascii_isdigit p \<Longrightarrow> CHR ''/'' \<notin> set p"
  by (auto simp: isascii_isdigit_def is_digit_def list_all_iff)

lemma IPv4Address_no_slash: "IPv4Address a = Inr n \<Longrightarrow> CHR ''/'' \<notin> set a"
  by (auto simp: IPv4Address_def split: if_splits)

lemma split_addr_prefix_slash:
  assumes "CHR ''/'' \<notin> set a" and "CHR ''/'' \<notin> set p"
  shows "split_addr_prefix (a @ ''/'' @ p) = Inr (a, MaskStr p)"
  using assms
  by (simp add: split_addr_prefix_def split_optional_netmask_def split_append_sep split_no_sep)

text \<open>
  C10. \<open>get_all_ips_from_cidr\<close> parses strictly: on a string \<open>a/p\<close> whose address part
  \<open>a\<close> is a valid IPv4 address and whose prefix part \<open>p\<close> is a valid prefix length, it
  raises \<open>ValueError\<close> when the address has a bit set below the prefix length; it does
  not return the addresses of the enclosing network.
\<close>

theorem get_all_ips_from_cidr_host_bits:
  assumes "IPv4Address a = Inr n" and "prefix_from_prefix_string p = Inr pl"
    and "n AND ip_int_from_prefix pl \<noteq> n"
  shows "get_all_ips_from_cidr (a @ ''/'' @ p) = Inl ValueError"
proof -
  have "isascii_isdigit p"
    using assms(2) by (auto simp: prefix_from_prefix_string_def split: if_splits)
  then have "split_addr_prefix (a @ ''/'' @ p) = Inr (a, MaskStr p)"
    using assms(1) by (intro split_addr_prefix_slash IPv4Address_no_slash digits_no_slash)
  moreover have "make_netmask (MaskStr p) = Inr (ip_int_from_prefix pl, pl)"
    using assms(2) by (simp add: make_netmask_def)
  ultimately have "IPv4Network (a @ ''/'' @ p) = Inl ValueError"
    using assms(1,3) by (simp add: IPv4Network_def)
  then show ?thesis by (simp add: get_all_ips_from_cidr_def)
qed

theorem get_all_ips_from_cidr_host_bits_witness:
  "IPv4Address ''185.56.64.1'' = Inr 3107471361
   \<and> prefix_from_prefix_string ''24'' = Inr 24
   \<and> (3107471361 :: int) AND ip_int_from_prefix 24 \<noteq> 3107471361
   \<and> get_all_ips_from_cidr ''185.56.64.1/24'' = Inl ValueError"
proof -
  have a: "IPv4Address ''185.56.64.1'' = Inr 3107471361" by code_simp
  have p: "prefix_from_prefix_string ''24'' = Inr 24" by code_simp
  have h: "(3107471361 :: int) AND ip_int_from_prefix 24 \<noteq> 3107471361" by code_simp
  from get_all_ips_from_cidr_host_bits [OF a p h] a p h show ?thesis by simp
qed

section \<open>Expanding a block\<close>

subsection \<open>Decimal numbers and dotted quads\<close>

text \<open>
  The string of an address parses back to the address, so \<^verbatim>\<open>str\<close> is injective on the
  addresses of 32 bits.
\<close>

lemma digit_char_facts:
  assumes "d < 10"
  shows "is_digit (digit_char d)" and "digit_val (digit_char d) = int d"
    and "digit_char d \<noteq> CHR ''.''" and "digit_char d \<noteq> CHR ''/''"
    and "digit_char d = CHR ''0'' \<longleftrightarrow> d = 0"
proof -
  have "d \<in> {0, 1, 2, 3, 4, 5, 6, 7, 8, 9}"
    using assms by auto
  then show "is_digit (digit_char d)" and "digit_val (digit_char d) = int d"
    and "digit_char d \<noteq> CHR ''.''" and "digit_char d \<noteq> CHR ''/''"
    and "digit_char d = CHR ''0'' \<longleftrightarrow> d = 0"
    by (auto simp: is_digit_def digit_val_def digit_char_def)
qed

lemma int_of_str_snoc: "int_of_str (s @ [c]) = 10 * int_of_str s + digit_val c"
  by (simp add: int_of_str_def)

lemma str_of_nat_nonempty: "str_of_nat n \<noteq> []"
  by (induction n rule: str_of_nat.induct) (subst str_of_nat.simps, simp)

lemma str_of_nat_digits: "list_all is_digit (str_of_nat n)"
proof (induction n rule: str_of_nat.induct)
  case (1 n)
  show ?case
    by (subst str_of_nat.simps) (use 1 in \<open>simp add: digit_char_facts\<close>)
qed

lemma str_of_nat_chars: "c \<in> set (str_of_nat n) \<Longrightarrow> c \<noteq> CHR ''.'' \<and> c \<noteq> CHR ''/''"
proof (induction n rule: str_of_nat.induct)
  case (1 n)
  from "1.prems" show ?case
    by (subst (asm) str_of_nat.simps) (use "1.IH" in \<open>auto simp: digit_char_facts split: if_splits\<close>)
qed

lemma int_of_str_of_nat: "int_of_str (str_of_nat n) = int n"
proof (induction n rule: str_of_nat.induct)
  case (1 n)
  show ?case
  proof (cases "n < 10")
    case True
    then show ?thesis
      by (subst str_of_nat.simps) (simp add: int_of_str_def digit_char_facts)
  next
    case False
    then have "int_of_str (str_of_nat n) = 10 * int (n div 10) + int (n mod 10)"
      by (subst str_of_nat.simps) (simp add: int_of_str_snoc "1.IH" digit_char_facts)
    moreover have "10 * int (n div 10) + int (n mod 10) = int n"
      by presburger
    ultimately show ?thesis
      by simp
  qed
qed

lemma str_of_nat_hd: "0 < n \<Longrightarrow> hd (str_of_nat n) \<noteq> CHR ''0''"
proof (induction n rule: str_of_nat.induct)
  case (1 n)
  show ?case
  proof (cases "n < 10")
    case True
    with "1.prems" show ?thesis
      by (subst str_of_nat.simps) (simp add: digit_char_facts)
  next
    case False
    then have "hd (str_of_nat (n div 10)) \<noteq> CHR ''0''"
      by (intro "1.IH") auto
    with False show ?thesis
      by (subst str_of_nat.simps) (simp add: str_of_nat_nonempty)
  qed
qed

lemma str_of_nat_0: "str_of_nat 0 = ''0''"
  by (simp add: str_of_nat.simps digit_char_def)

lemma str_of_nat_length: "n < 1000 \<Longrightarrow> length (str_of_nat n) \<le> 3"
proof -
  assume n: "n < 1000"
  have l1: "length (str_of_nat k) = 1" if "k < 10" for k
    using that by (subst str_of_nat.simps) simp
  have l2: "length (str_of_nat k) \<le> 2" if "k < 100" for k
    using that l1 [of "k div 10"] by (subst str_of_nat.simps) auto
  show ?thesis
    using n l2 [of "n div 10"] l1 [of n] by (subst str_of_nat.simps) auto
qed

lemma parse_octet_str_of_nat:
  assumes "d < 256"
  shows "parse_octet (str_of_nat d) = Inr (int d)"
proof -
  have "str_of_nat d \<noteq> ''0'' \<and> hd (str_of_nat d) = CHR ''0'' \<longleftrightarrow> False"
    using str_of_nat_hd [of d] str_of_nat_0 by (cases "d = 0") auto
  then show ?thesis
    using assms str_of_nat_length [of d]
    by (simp add: parse_octet_def str_of_nat_nonempty isascii_isdigit_def str_of_nat_digits
        int_of_str_of_nat)
qed

lemma split_join4:
  assumes "sep \<notin> set a" "sep \<notin> set b" "sep \<notin> set c" "sep \<notin> set d"
  shows "split sep (join [sep] [a, b, c, d]) = [a, b, c, d]"
  using assms by (simp add: split_append_sep split_no_sep)

lemma from_bytes_big4: "from_bytes_big [a, b, c, d] = ((a * 256 + b) * 256 + c) * 256 + d"
  by (simp add: from_bytes_big_def)

lemma from_bytes_to_bytes4:
  assumes "0 \<le> n" and "n < 2 ^ 32"
  shows "from_bytes_big (map int (to_bytes4 n)) = n"
proof -
  define q1 where "q1 = n div 256"
  define q2 where "q2 = q1 div 256"
  define q3 where "q3 = q2 div 256"
  have d8: "n div 2 ^ 8 = q1"
    by (simp add: q1_def)
  have d16: "n div 2 ^ 16 = q2"
    using zdiv_zmult2_eq [of 256 n 256] by (simp add: q1_def q2_def)
  have d24: "n div 2 ^ 24 = q3"
    using zdiv_zmult2_eq [of 256 n 65536] d16 by (simp add: q3_def)
  have "0 \<le> q3" and "q3 < 256"
    using assms unfolding d24 [symmetric] by (simp_all add: pos_imp_zdiv_nonneg_iff)
  then have m3: "q3 mod 256 = q3"
    by simp
  have e1: "n = q1 * 256 + n mod 256"
    by (simp add: q1_def)
  have e2: "q1 = q2 * 256 + q1 mod 256"
    by (simp add: q2_def)
  have e3: "q2 = q3 * 256 + q2 mod 256"
    by (simp add: q3_def)
  have "from_bytes_big (map int (to_bytes4 n))
        = ((q3 mod 256 * 256 + q2 mod 256) * 256 + q1 mod 256) * 256 + n mod 256"
    unfolding to_bytes4_def d8 d16 d24 by (simp add: from_bytes_big4)
  also have "\<dots> = n"
    unfolding m3 using e1 e2 e3 by simp
  finally show ?thesis .
qed

lemma div_mod_256:
  fixes x :: int
  assumes "d < 256"
  shows "(x * 256 + int d) div 256 = x" and "(x * 256 + int d) mod 256 = int d"
  using assms by simp_all

lemma to_bytes4_octets_eq:
  assumes "a < 256" "b < 256" "c < 256" "d < 256"
  shows "to_bytes4 (((int a * 256 + int b) * 256 + int c) * 256 + int d) = [a, b, c, d]"
proof -
  define n1 where "n1 = int a * 256 + int b"
  define n2 where "n2 = n1 * 256 + int c"
  define n3 where "n3 = n2 * 256 + int d"
  have s3: "n3 div 256 = n2" "n3 mod 256 = int d"
    unfolding n3_def by (rule div_mod_256 [OF assms(4)])+
  have s2: "n2 div 256 = n1" "n2 mod 256 = int c"
    unfolding n2_def by (rule div_mod_256 [OF assms(3)])+
  have s1: "n1 div 256 = int a" "n1 mod 256 = int b"
    unfolding n1_def by (rule div_mod_256 [OF assms(2)])+
  have a0: "int a mod 256 = int a"
    using assms by simp
  have d8: "n3 div 2 ^ 8 = n2"
    using s3(1) by simp
  have d16: "n3 div 2 ^ 16 = n1"
    using zdiv_zmult2_eq [of 256 n3 256] s3(1) s2(1) by simp
  have d24: "n3 div 2 ^ 24 = int a"
    using zdiv_zmult2_eq [of 256 n3 65536] d16 s1(1) by simp
  have "to_bytes4 n3 = [a, b, c, d]"
    unfolding to_bytes4_def d8 d16 d24 s3 s2 s1 a0 by simp
  then show ?thesis
    by (simp only: n3_def n2_def n1_def)
qed

lemma string_from_ip_int_185_56_64:
  assumes "k \<le> 255"
  shows "string_from_ip_int (3107471360 + int k) = ''185.56.64.'' @ str_of_nat k"
proof -
  have "3107471360 + int k = ((int 185 * 256 + int 56) * 256 + int 64) * 256 + int k"
    by simp
  then have "to_bytes4 (3107471360 + int k) = [185, 56, 64, k]"
    using to_bytes4_octets_eq [of 185 56 64 k] assms by simp
  moreover have "str_of_nat 185 = ''185''" "str_of_nat 56 = ''56''" "str_of_nat 64 = ''64''"
    by (simp_all add: str_of_nat.simps digit_char_def)
  ultimately show ?thesis
    by (simp add: string_from_ip_int_def)
qed

lemma to_bytes4_octets:
  "\<exists>a b c d. to_bytes4 n = [a, b, c, d] \<and> a < 256 \<and> b < 256 \<and> c < 256 \<and> d < 256"
  by (simp add: to_bytes4_def nat_less_iff)

lemma ip_int_from_string_roundtrip:
  assumes "0 \<le> n" and "n < 2 ^ 32"
  shows "ip_int_from_string (string_from_ip_int n) = Inr n"
proof -
  obtain a b c d where bs: "to_bytes4 n = [a, b, c, d]"
    and lt: "a < 256" "b < 256" "c < 256" "d < 256"
    using to_bytes4_octets by blast
  let ?s = "string_from_ip_int n"
  have s: "?s = join ''.'' [str_of_nat a, str_of_nat b, str_of_nat c, str_of_nat d]"
    by (simp add: string_from_ip_int_def bs)
  have nodot: "CHR ''.'' \<notin> set (str_of_nat k)" for k
    using str_of_nat_chars by blast
  have "?s \<noteq> []"
    unfolding s by (simp add: str_of_nat_nonempty)
  moreover have "split (CHR ''.'') ?s = [str_of_nat a, str_of_nat b, str_of_nat c, str_of_nat d]"
    unfolding s by (rule split_join4) (rule nodot)+
  moreover have "map_result parse_octet [str_of_nat a, str_of_nat b, str_of_nat c, str_of_nat d]
      = Inr (map int (to_bytes4 n))"
    using lt by (simp add: parse_octet_str_of_nat bs)
  ultimately show ?thesis
    using from_bytes_to_bytes4 [OF assms] by (simp add: ip_int_from_string_def)
qed

lemma string_from_ip_int_no_slash: "CHR ''/'' \<notin> set (string_from_ip_int n)"
proof -
  obtain a b c d where bs: "to_bytes4 n = [a, b, c, d]"
    using to_bytes4_octets by blast
  have "CHR ''/'' \<notin> set (str_of_nat k)" for k
    using str_of_nat_chars by blast
  then show ?thesis
    by (simp add: string_from_ip_int_def bs)
qed

lemma IPv4Address_roundtrip:
  assumes "0 \<le> n" and "n < 2 ^ 32"
  shows "IPv4Address (string_from_ip_int n) = Inr n"
  by (simp add: IPv4Address_def string_from_ip_int_no_slash ip_int_from_string_roundtrip [OF assms])

lemma string_from_ip_int_eq:
  assumes "0 \<le> x" "x < 2 ^ 32" "0 \<le> y" "y < 2 ^ 32"
    and eq: "string_from_ip_int x = string_from_ip_int y"
  shows "x = y"
proof -
  have "(Inr x :: error + int) = IPv4Address (string_from_ip_int x)"
    using assms(1,2) by (rule IPv4Address_roundtrip [symmetric])
  also have "\<dots> = IPv4Address (string_from_ip_int y)"
    by (rule arg_cong [OF eq])
  also have "\<dots> = Inr y"
    using assms(3,4) by (rule IPv4Address_roundtrip)
  finally show "x = y"
    by (rule Inr_inject)
qed

lemma string_from_ip_int_inj: "inj_on string_from_ip_int {0..<2 ^ 32}"
  by (rule inj_onI) (auto intro: string_from_ip_int_eq)

subsection \<open>The addresses of a network\<close>

text \<open>
  A network that parsed has a prefix length of at most 32, the netmask of that length and
  no host bit set, so its broadcast address is the network address plus the size of the
  block minus one.
\<close>

lemma ALL_ONES_mask: "ALL_ONES = mask 32"
  by (simp add: ALL_ONES_def mask_eq_exp_minus_1)

lemma ip_int_from_prefix_mask: "ip_int_from_prefix pl = mask 32 XOR mask (32 - pl)"
  by (simp add: ip_int_from_prefix_def ALL_ONES_mask drop_bit_mask_eq)

lemma hostmask_mask:
  "ip_int_from_prefix pl XOR ALL_ONES = mask (32 - pl)"
  unfolding ip_int_from_prefix_mask ALL_ONES_mask
  by (rule bit_eqI) (auto simp: bit_simps)

lemma network_and_hostmask:
  assumes "na AND ip_int_from_prefix pl = na"
  shows "na AND mask (32 - pl) = 0"
proof -
  have "(na AND ip_int_from_prefix pl) AND mask (32 - pl) = 0"
    unfolding ip_int_from_prefix_mask
    by (rule bit_eqI) (auto simp: bit_simps)
  then show ?thesis
    by (simp only: assms)
qed

lemma broadcast_eq:
  assumes "na AND ip_int_from_prefix pl = na"
  shows "na OR (ip_int_from_prefix pl XOR ALL_ONES) = na + 2 ^ (32 - pl) - 1"
proof -
  have "na OR mask (32 - pl) = na + mask (32 - pl)"
    by (rule disjunctive_add_eq_or [symmetric]) (rule network_and_hostmask [OF assms])
  then show ?thesis
    by (simp add: hostmask_mask mask_eq_exp_minus_1)
qed

lemma broadcast_bound:
  assumes "0 \<le> na" and "na < 2 ^ 32"
  shows "na OR (ip_int_from_prefix pl XOR ALL_ONES) < 2 ^ 32"
proof -
  have "(2 :: int) ^ (32 - pl) \<le> 2 ^ 32"
    by (rule power_increasing) simp_all
  moreover have "mask (32 - pl) < (2 :: int) ^ (32 - pl)"
    by (simp add: mask_eq_exp_minus_1)
  ultimately have "mask (32 - pl) < (2 :: int) ^ 32"
    by (rule less_le_trans [rotated])
  then have "na OR mask (32 - pl) < 2 ^ 32"
    using assms by (intro OR_upper) simp_all
  then show ?thesis
    by (simp only: hostmask_mask)
qed

lemma digit_val_nonneg: "is_digit c \<Longrightarrow> 0 \<le> digit_val c"
  by (auto simp: is_digit_def digit_val_def)

lemma int_of_str_nonneg: "list_all is_digit s \<Longrightarrow> 0 \<le> int_of_str s"
proof (induction s rule: rev_induct)
  case Nil
  then show ?case by (simp add: int_of_str_def)
next
  case (snoc c s)
  then show ?case
    using digit_val_nonneg [of c] by (simp add: int_of_str_snoc)
qed

lemma parse_octet_range: "parse_octet s = Inr v \<Longrightarrow> 0 \<le> v \<and> v \<le> 255"
  by (auto simp: parse_octet_def Let_def isascii_isdigit_def int_of_str_nonneg split: if_splits)

lemma map_result_Inr:
  "map_result f xs = Inr ys \<Longrightarrow> length ys = length xs \<and> (\<forall>y\<in>set ys. \<exists>x. f x = Inr y)"
  by (induction xs arbitrary: ys) (auto split: sum.splits)

lemma ip_int_from_string_range:
  assumes "ip_int_from_string s = Inr n"
  shows "0 \<le> n \<and> n < 2 ^ 32"
proof -
  obtain bs where len: "length (split (CHR ''.'') s) = 4"
    and bs: "map_result parse_octet (split (CHR ''.'') s) = Inr bs"
    and n: "n = from_bytes_big bs"
    using assms by (auto simp: ip_int_from_string_def Let_def split: if_splits sum.splits)
  have all: "length bs = length (split (CHR ''.'') s)"
    "\<forall>y\<in>set bs. \<exists>x. parse_octet x = Inr y"
    using map_result_Inr [OF bs] by simp_all
  then have "length bs = 4"
    using len by simp
  then obtain a b c d where abcd: "bs = [a, b, c, d]"
    by (auto simp: length_Suc_conv numeral_eq_Suc)
  have "\<forall>v\<in>set bs. 0 \<le> v \<and> v \<le> 255"
    using all(2) parse_octet_range by blast
  then show ?thesis
    unfolding n abcd from_bytes_big4 by simp
qed

lemma IPv4Address_range: "IPv4Address s = Inr n \<Longrightarrow> 0 \<le> n \<and> n < 2 ^ 32"
  by (auto simp: IPv4Address_def split: if_splits dest: ip_int_from_string_range)

lemma prefix_from_ip_int_le: "prefix_from_ip_int m = Inr pl \<Longrightarrow> pl \<le> 32"
  by (auto simp: prefix_from_ip_int_def Let_def max_prefixlen_def split: if_splits)

lemma make_netmask_Inr:
  assumes "make_netmask arg = Inr (nm, pl)"
  shows "pl \<le> 32 \<and> nm = ip_int_from_prefix pl"
  using assms
  by (auto simp: make_netmask_def prefix_from_prefix_string_def prefix_from_ip_string_def
      Let_def max_prefixlen_def
      split: mask_arg.splits sum.splits if_splits dest: prefix_from_ip_int_le)

lemma IPv4Network_Inr:
  assumes "IPv4Network s = Inr net"
  shows "prefixlen net \<le> 32" and "netmask net = ip_int_from_prefix (prefixlen net)"
    and "network_address net AND netmask net = network_address net"
    and "0 \<le> network_address net" and "network_address net < 2 ^ 32"
  using assms
  by (auto simp: IPv4Network_def split: sum.splits prod.splits if_splits
      dest: make_netmask_Inr IPv4Address_range)

lemma fold_insert_image:
  "fold (\<lambda>ip ips. insert (f ip) ips) xs S = S \<union> f ` set xs"
  by (induction xs arbitrary: S) auto

lemma broadcast_address_eq:
  assumes "IPv4Network s = Inr net"
  shows "broadcast_address net = network_address net + 2 ^ (32 - prefixlen net) - 1"
  using IPv4Network_Inr [OF assms]
  by (simp add: broadcast_address_def hostmask_def broadcast_eq)

lemma iter_in_range:
  assumes "IPv4Network s = Inr net" and "x \<in> set (iter net)"
  shows "0 \<le> x \<and> x \<le> ALL_ONES"
proof -
  have "broadcast_address net < 2 ^ 32"
    using IPv4Network_Inr [OF assms(1)]
      broadcast_bound [of "network_address net" "prefixlen net"]
    by (simp add: broadcast_address_def hostmask_def)
  then show ?thesis
    using assms(2) IPv4Network_Inr(4) [OF assms(1)] by (simp add: iter_def ALL_ONES_def)
qed

lemma get_all_ips_from_cidr_Inr:
  assumes "IPv4Network s = Inr net"
  shows "get_all_ips_from_cidr s
         = Inr (string_from_ip_int `
             {network_address net..network_address net + 2 ^ (32 - prefixlen net) - 1})"
  by (simp add: get_all_ips_from_cidr_def assms fold_insert_image iter_def
      broadcast_address_eq [OF assms])

lemma card_int_interval: "card {a..a + 2 ^ m - 1 :: int} = 2 ^ m"
  by (simp add: nat_power_eq)

lemma ips_185_56_64:
  "string_from_ip_int ` {3107471360..3107471615}
   = (\<lambda>k. ''185.56.64.'' @ str_of_nat k) ` {0..255}"
proof -
  have "{3107471360..3107471615 :: int} = (\<lambda>k. 3107471360 + int k) ` {0..255}"
  proof (rule set_eqI, rule iffI)
    fix x :: int
    assume "x \<in> {3107471360..3107471615}"
    then have "x = 3107471360 + int (nat (x - 3107471360))" "nat (x - 3107471360) \<in> {0..255}"
      by (simp_all add: nat_le_iff)
    then show "x \<in> (\<lambda>k. 3107471360 + int k) ` {0..255}"
      by (rule image_eqI)
  next
    fix x :: int
    assume "x \<in> (\<lambda>k. 3107471360 + int k) ` {0..255}"
    then show "x \<in> {3107471360..3107471615}"
      by auto
  qed
  moreover have "(\<lambda>k. string_from_ip_int (3107471360 + int k)) ` {0..255}
      = (\<lambda>k. ''185.56.64.'' @ str_of_nat k) ` {0..255}"
    by (rule image_cong) (simp_all add: string_from_ip_int_185_56_64)
  ultimately show ?thesis
    by (simp only: image_image)
qed

text \<open>
  C6. For a block that parses as a network of prefix length \<open>p\<close>,
  \<open>get_all_ips_from_cidr\<close> returns the strings of the addresses from the network address
  to the network address plus \<open>2 ^ (32 - p) - 1\<close>: a set of \<open>2 ^ (32 - p)\<close> strings,
  each of which parses to an address in that range. For \<^verbatim>\<open>185.56.64.0/24\<close> these are
  the addresses \<^verbatim>\<open>185.56.64.0\<close> to \<^verbatim>\<open>185.56.64.255\<close>.
\<close>

theorem get_all_ips_from_cidr_valid:
  assumes "IPv4Network B = Inr net"
  shows "(\<exists>S. get_all_ips_from_cidr B = Inr S
            \<and> S = string_from_ip_int `
                  {network_address net..network_address net + 2 ^ (32 - prefixlen net) - 1}
            \<and> finite S \<and> card S = 2 ^ (32 - prefixlen net)
            \<and> (\<forall>a\<in>S. \<exists>n. IPv4Address a = Inr n \<and> network_address net \<le> n
                  \<and> n \<le> network_address net + 2 ^ (32 - prefixlen net) - 1))
         \<and> get_all_ips_from_cidr ''185.56.64.0/24''
             = Inr ((\<lambda>k. ''185.56.64.'' @ str_of_nat k) ` {0..255})"
proof -
  let ?lo = "network_address net"
  let ?hi = "network_address net + 2 ^ (32 - prefixlen net) - 1"
  let ?S = "string_from_ip_int ` {?lo..?hi}"
  note net = IPv4Network_Inr [OF assms]
  have hi: "?hi < 2 ^ 32"
    using broadcast_bound [OF net(4,5), of "prefixlen net"] broadcast_eq [of ?lo "prefixlen net"]
      net(2,3)
    by simp
  have sub: "{?lo..?hi} \<subseteq> {0..<2 ^ 32}"
    using net(4) hi by auto
  have "inj_on string_from_ip_int {?lo..?hi}"
    using string_from_ip_int_inj sub by (rule inj_on_subset)
  then have card: "card ?S = 2 ^ (32 - prefixlen net)"
    by (simp add: card_image card_int_interval)
  have mem: "\<exists>n. IPv4Address a = Inr n \<and> ?lo \<le> n \<and> n \<le> ?hi" if S: "a \<in> ?S" for a
  proof -
    obtain n where n: "n \<in> {?lo..?hi}" and a: "a = string_from_ip_int n"
      using S by blast
    have "0 \<le> n" "n < 2 ^ 32"
      using n sub by auto
    then have "IPv4Address a = Inr n"
      unfolding a by (rule IPv4Address_roundtrip)
    then show ?thesis
      using n by auto
  qed
  have "IPv4Network ''185.56.64.0/24''
        = Inr \<lparr>network_address = 3107471360, netmask = 4294967040, prefixlen = 24\<rparr>"
    by code_simp
  then have "get_all_ips_from_cidr ''185.56.64.0/24''
             = Inr ((\<lambda>k. ''185.56.64.'' @ str_of_nat k) ` {0..255})"
    using ips_185_56_64 by (simp add: get_all_ips_from_cidr_Inr)
  then show ?thesis
    using get_all_ips_from_cidr_Inr [OF assms] card mem by simp
qed

theorem get_all_ips_from_cidr_valid_witness:
  "IPv4Network ''185.56.64.0/24''
     = Inr \<lparr>network_address = 3107471360, netmask = 4294967040, prefixlen = 24\<rparr>
   \<and> (\<exists>S. get_all_ips_from_cidr ''185.56.64.0/24'' = Inr S \<and> card S = 256
          \<and> S = (\<lambda>k. ''185.56.64.'' @ str_of_nat k) ` {0..255})"
proof -
  have net: "IPv4Network ''185.56.64.0/24''
     = Inr \<lparr>network_address = 3107471360, netmask = 4294967040, prefixlen = 24\<rparr>"
    by code_simp
  note valid = get_all_ips_from_cidr_valid [OF net]
  from valid obtain S where S: "get_all_ips_from_cidr ''185.56.64.0/24'' = Inr S"
    and c: "card S = 2 ^ (32 - prefixlen \<lparr>network_address = 3107471360,
      netmask = 4294967040, prefixlen = 24\<rparr>)"
    by blast
  from valid have "get_all_ips_from_cidr ''185.56.64.0/24''
      = Inr ((\<lambda>k. ''185.56.64.'' @ str_of_nat k) ` {0..255})"
    by (rule conjunct2)
  with S have "S = (\<lambda>k. ''185.56.64.'' @ str_of_nat k) ` {0..255}"
    by simp
  moreover from c have "card S = 256"
    by simp
  ultimately show ?thesis
    using net S by blast
qed

section \<open>Expanding several blocks\<close>

lemma cidr_array_loop_valid:
  assumes "\<forall>b\<in>set bs. \<exists>net. IPv4Network b = Inr net"
  shows "cidr_array_loop ips bs = Inr (ips \<union> (\<Union>b\<in>set bs. projr (get_all_ips_from_cidr b)))"
  using assms
proof (induction bs arbitrary: ips)
  case Nil
  then show ?case by simp
next
  case (Cons b bs)
  then obtain net where "IPv4Network b = Inr net"
    by auto
  then obtain S where "get_all_ips_from_cidr b = Inr S"
    by (simp add: get_all_ips_from_cidr_def)
  with Cons show ?case
    by (simp add: Un_assoc)
qed

text \<open>
  C7. \<open>get_all_ips_from_cidr_array\<close> on one block, and on the same block twice, is
  \<open>get_all_ips_from_cidr\<close> on the block; on valid blocks it returns the same set for
  every permutation of the list.
\<close>

theorem get_all_ips_from_cidr_array_laws:
  "get_all_ips_from_cidr_array [B] = get_all_ips_from_cidr B
   \<and> get_all_ips_from_cidr_array [B, B] = get_all_ips_from_cidr B
   \<and> ((\<forall>b\<in>set bs. \<exists>net. IPv4Network b = Inr net) \<and> mset bs' = mset bs
        \<longrightarrow> (\<exists>S. get_all_ips_from_cidr_array bs = Inr S
                  \<and> get_all_ips_from_cidr_array bs' = Inr S))"
proof -
  have one: "get_all_ips_from_cidr_array [B] = get_all_ips_from_cidr B"
    by (simp add: get_all_ips_from_cidr_array_def split: sum.splits)
  have two: "get_all_ips_from_cidr_array [B, B] = get_all_ips_from_cidr B"
    by (simp add: get_all_ips_from_cidr_array_def split: sum.splits)
  have perm: "\<exists>S. get_all_ips_from_cidr_array bs = Inr S \<and> get_all_ips_from_cidr_array bs' = Inr S"
    if v: "\<forall>b\<in>set bs. \<exists>net. IPv4Network b = Inr net" and m: "mset bs' = mset bs"
  proof -
    have s: "set bs' = set bs"
      using m by (rule mset_eq_setD)
    then have v': "\<forall>b\<in>set bs'. \<exists>net. IPv4Network b = Inr net"
      using v by simp
    show ?thesis
      unfolding get_all_ips_from_cidr_array_def cidr_array_loop_valid [OF v]
        cidr_array_loop_valid [OF v'] s
      by simp
  qed
  from one two perm show ?thesis
    by blast
qed

theorem get_all_ips_from_cidr_array_laws_witness:
  "IPv4Network ''185.56.64.0/24''
     = Inr \<lparr>network_address = 3107471360, netmask = 4294967040, prefixlen = 24\<rparr>
   \<and> IPv4Network ''185.56.64.0/22''
     = Inr \<lparr>network_address = 3107471360, netmask = 4294966272, prefixlen = 22\<rparr>
   \<and> mset [''185.56.64.0/22'', ''185.56.64.0/24''] = mset [''185.56.64.0/24'', ''185.56.64.0/22'']
   \<and> (\<exists>S. get_all_ips_from_cidr_array [''185.56.64.0/24'', ''185.56.64.0/22''] = Inr S
          \<and> get_all_ips_from_cidr_array [''185.56.64.0/22'', ''185.56.64.0/24''] = Inr S)"
proof -
  have n1: "IPv4Network ''185.56.64.0/24''
     = Inr \<lparr>network_address = 3107471360, netmask = 4294967040, prefixlen = 24\<rparr>"
    by code_simp
  have n2: "IPv4Network ''185.56.64.0/22''
     = Inr \<lparr>network_address = 3107471360, netmask = 4294966272, prefixlen = 22\<rparr>"
    by code_simp
  have v: "\<forall>b\<in>set [''185.56.64.0/24'', ''185.56.64.0/22'']. \<exists>net. IPv4Network b = Inr net"
    using n1 n2 by simp
  have m: "mset [''185.56.64.0/22'', ''185.56.64.0/24''] = mset [''185.56.64.0/24'', ''185.56.64.0/22'']"
    by simp
  from get_all_ips_from_cidr_array_laws
    [of _ "[''185.56.64.0/24'', ''185.56.64.0/22'']" "[''185.56.64.0/22'', ''185.56.64.0/24'']"]
    v m n1 n2
  show ?thesis
    by blast
qed

section \<open>The download page\<close>

text \<open>
  C2. On a page without a download link \<open>get_azure_ip_ranges_download\<close> returns the empty
  list: \<^verbatim>\<open>re.findall\<close> gives \<^verbatim>\<open>[]\<close> there, which is not \<^verbatim>\<open>None\<close>, so the
  \<open>ScrapeError\<close> of the source is not raised, on this page or on any other.
\<close>

theorem get_azure_ip_ranges_download_no_link:
  "str_of_bytes ''<html></html>'' = ''b'' @ [apostrophe] @ ''<html></html>'' @ [apostrophe]
   \<and> findall MICROSOFT_DOWNLOAD_REGEX (str_of_bytes ''<html></html>'') = []
   \<and> get_azure_ip_ranges_download (Inr \<lparr>status_code = 200, content = ''<html></html>''\<rparr>)
       = Inr []
   \<and> get_azure_ip_ranges_download (Inr response) \<noteq> Inl ScrapeError"
proof -
  have "get_azure_ip_ranges_download (Inr response) \<noteq> Inl ScrapeError"
    by (simp add: get_azure_ip_ranges_download_def raise_for_status_def split: sum.splits)
  moreover have "str_of_bytes ''<html></html>''
      = ''b'' @ [apostrophe] @ ''<html></html>'' @ [apostrophe]"
    by code_simp
  moreover have "findall MICROSOFT_DOWNLOAD_REGEX (str_of_bytes ''<html></html>'') = []"
    by code_simp
  moreover have "get_azure_ip_ranges_download
      (Inr \<lparr>status_code = 200, content = ''<html></html>''\<rparr>) = Inr []"
    by code_simp
  ultimately show ?thesis
    by (simp only: simp_thms)
qed

subsection \<open>The matcher and the pattern\<close>

text \<open>
  What \<open>re_match\<close> returns is a prefix that the pattern accepts, and it returns one
  whenever some prefix is accepted; so every element of \<open>findall\<close> is a substring that
  matches, and \<open>findall\<close> is not empty when a substring matches.
\<close>

lemma re_match_sound:
  "re_match p s = Some n \<Longrightarrow> n \<le> length s \<and> accepts p (take n s)"
proof (induction p s arbitrary: n rule: re_match.induct)
  case (1 s)
  then show ?case by simp
next
  case (2 c r)
  then show ?case by simp
next
  case (3 c r x xs)
  then show ?case by (auto split: if_splits)
next
  case (4 c r)
  then show ?case by simp
next
  case (5 c r x xs)
  show ?case
  proof (cases "cmatch c x")
    case True
    show ?thesis
    proof (cases "re_match (Star c # r) xs")
      case None
      with True 5 show ?thesis
        by (cases n) auto
    next
      case (Some k)
      with True 5 show ?thesis
        by auto
    qed
  next
    case False
    with 5 show ?thesis
      by (cases n) auto
  qed
qed

lemma re_match_complete:
  "accepts p w \<Longrightarrow> re_match p (w @ t) \<noteq> None"
proof (induction p w rule: accepts.induct)
  case (1 s)
  then show ?case by simp
next
  case (2 c r)
  then show ?case by simp
next
  case (3 c r x xs)
  then show ?case by auto
next
  case (4 c r)
  then show ?case
    by (cases t) (auto split: option.splits)
next
  case (5 c r x xs)
  then show ?case
    by (auto split: option.splits)
qed

lemma findall_sound:
  "w \<in> set (findall p s) \<Longrightarrow> sublist w s \<and> accepts p w"
proof (induction p s rule: findall.induct)
  case (1 p)
  show ?case
  proof (cases "re_match p []")
    case None
    with 1 show ?thesis by simp
  next
    case (Some n)
    with 1 re_match_sound [OF Some] show ?thesis by simp
  qed
next
  case (2 p x xs)
  show ?case
  proof (cases "re_match p (x # xs)")
    case None
    with 2 show ?thesis
      by (auto simp: sublist_Cons_right)
  next
    case (Some n)
    note snd = re_match_sound [OF Some]
    from 2 Some consider "w = take n (x # xs)" | "w \<in> set (findall p (drop (n - 1) xs))"
      by auto
    then show ?thesis
    proof cases
      case 1
      then show ?thesis
        using snd by (auto intro: take_is_prefix)
    next
      case 2
      then have "sublist w (drop (n - 1) xs)" and "accepts p w"
        using "2.IH"(2) [OF Some] by auto
      moreover have "sublist (drop (n - 1) xs) (x # xs)"
        by (simp add: sublist_Cons_right)
      ultimately show ?thesis
        by (auto intro: sublist_order.order_trans)
    qed
  qed
qed

lemma findall_nonempty_append:
  "accepts p w \<Longrightarrow> findall p (a @ w @ b) \<noteq> []"
proof (induction a)
  case Nil
  then have "re_match p (w @ b) \<noteq> None"
    by (rule re_match_complete)
  then show ?case
    by (cases "w @ b") (auto split: option.splits)
next
  case (Cons x a)
  then show ?case
    by (auto split: option.splits)
qed

lemma findall_nonempty:
  "sublist w s \<Longrightarrow> accepts p w \<Longrightarrow> findall p s \<noteq> []"
  by (auto simp: sublist_def findall_nonempty_append)

lemma remdups_singleton:
  assumes "xs \<noteq> []" and "\<forall>x\<in>set xs. x = u"
  shows "remdups xs = [u]"
  using assms
proof (induction xs)
  case Nil
  then show ?case by simp
next
  case (Cons x xs)
  then show ?case
    by (cases xs) auto
qed

lemma accepts_literal:
  "accepts (literal s @ r) m \<longleftrightarrow> (\<exists>m'. m = s @ m' \<and> accepts r m')"
proof (induction s arbitrary: m)
  case Nil
  then show ?case by (simp add: literal_def)
next
  case (Cons c s)
  then show ?case
    by (cases m) (auto simp: literal_def)
qed

lemma accepts_literal_end: "accepts (literal s) m \<longleftrightarrow> m = s"
  using accepts_literal [of s "[]" m] by simp

lemma accepts_One:
  "accepts (One c # r) m \<longleftrightarrow> (\<exists>x m'. m = x # m' \<and> cmatch c x \<and> accepts r m')"
  by (cases m) auto

lemma accepts_Star:
  "accepts (Star c # r) m
   \<longleftrightarrow> (\<exists>run m'. m = run @ m' \<and> (\<forall>x\<in>set run. cmatch c x) \<and> accepts r m')"
proof
  show "\<exists>run m'. m = run @ m' \<and> (\<forall>x\<in>set run. cmatch c x) \<and> accepts r m'"
    if "accepts (Star c # r) m"
    using that
  proof (induction m)
    case Nil
    then show ?case by simp
  next
    case (Cons x xs)
    from Cons.prems consider "accepts r (x # xs)" | "cmatch c x" "accepts (Star c # r) xs"
      by auto
    then show ?case
    proof cases
      case 1
      then have "x # xs = [] @ (x # xs) \<and> (\<forall>y\<in>set []. cmatch c y) \<and> accepts r (x # xs)"
        by simp
      then show ?thesis by blast
    next
      case 2
      then obtain run m' where "xs = run @ m'" "\<forall>y\<in>set run. cmatch c y" "accepts r m'"
        using Cons.IH by blast
      with 2 have "x # xs = (x # run) @ m' \<and> (\<forall>y\<in>set (x # run). cmatch c y) \<and> accepts r m'"
        by simp
      then show ?thesis by blast
    qed
  qed
next
  assume "\<exists>run m'. m = run @ m' \<and> (\<forall>x\<in>set run. cmatch c x) \<and> accepts r m'"
  then obtain run m' where m: "m = run @ m'" and run: "\<forall>x\<in>set run. cmatch c x"
    and r: "accepts r m'"
    by blast
  have "accepts (Star c # r) (run @ m')"
    using run
  proof (induction run)
    case Nil
    with r show ?case by (cases m') auto
  next
    case (Cons x run)
    then show ?case by simp
  qed
  then show "accepts (Star c # r) m"
    by (simp add: m)
qed

lemma accepts_tail:
  "accepts ([Star (Not_in [dquote]), One (In_set ''.'')] @ literal ''json'') m
   \<longleftrightarrow> (\<exists>run. m = run @ ''.json'' \<and> dquote \<notin> set run)"
proof -
  have "accepts (One (In_set ''.'') # literal ''json'') m' \<longleftrightarrow> m' = ''.json''" for m'
    unfolding accepts_One accepts_literal_end by auto
  then show ?thesis
    by (simp add: accepts_Star) blast
qed

lemma accepts_MICROSOFT_DOWNLOAD_REGEX:
  "accepts MICROSOFT_DOWNLOAD_REGEX m
   \<longleftrightarrow> (\<exists>x y run. m = ''https://download'' @ [x] @ ''microsoft'' @ [y] @ ''com/download''
                      @ run @ ''.json''
          \<and> x \<noteq> CHR 0x0A \<and> y \<noteq> CHR 0x0A \<and> dquote \<notin> set run)"
proof -
  let ?r5 = "[Star (Not_in [dquote]), One (In_set ''.'')] @ literal ''json''"
  let ?r4 = "literal ''com/download'' @ ?r5"
  let ?r3 = "One Dot # literal ''microsoft'' @ One Dot # ?r4"
  have p: "MICROSOFT_DOWNLOAD_REGEX = literal ''https://download'' @ ?r3"
    by (simp add: MICROSOFT_DOWNLOAD_REGEX_def)
  have a4: "accepts ?r4 m4 \<longleftrightarrow> (\<exists>run. m4 = ''com/download'' @ run @ ''.json'' \<and> dquote \<notin> set run)"
    for m4
    unfolding accepts_literal accepts_tail by blast
  have a3: "accepts ?r3 m3 \<longleftrightarrow> (\<exists>x y run. m3 = [x] @ ''microsoft'' @ [y] @ ''com/download''
      @ run @ ''.json'' \<and> x \<noteq> CHR 0x0A \<and> y \<noteq> CHR 0x0A \<and> dquote \<notin> set run)"
    for m3
  proof -
    have "accepts ?r3 m3 \<longleftrightarrow> (\<exists>x m'. m3 = x # m' \<and> x \<noteq> CHR 0x0A
        \<and> (\<exists>m''. m' = ''microsoft'' @ m'' \<and> (\<exists>y n. m'' = y # n \<and> y \<noteq> CHR 0x0A \<and> accepts ?r4 n)))"
      unfolding accepts_One [of Dot] accepts_literal [of "''microsoft''"] cmatch.simps ..
    also have "\<dots> \<longleftrightarrow> (\<exists>x y run. m3 = [x] @ ''microsoft'' @ [y] @ ''com/download''
      @ run @ ''.json'' \<and> x \<noteq> CHR 0x0A \<and> y \<noteq> CHR 0x0A \<and> dquote \<notin> set run)"
      unfolding a4 by auto
    finally show ?thesis .
  qed
  show ?thesis
    unfolding p accepts_literal [of "''https://download''"] a3 by blast
qed

lemma match_lengths_iff:
  "n \<in> set (match_lengths p s) \<longleftrightarrow> n \<le> length s \<and> accepts p (take n s)"
proof (induction p s arbitrary: n rule: match_lengths.induct)
  case (1 s)
  then show ?case by auto
next
  case (2 c r)
  then show ?case by simp
next
  case (3 c r x xs)
  then show ?case by (cases n) auto
next
  case (4 c r)
  then show ?case by simp
next
  case (5 c r x xs)
  then show ?case by (cases n) auto
qed

lemma sublist_take_suffix:
  assumes "sublist w ys"
  shows "\<exists>s\<in>set (suffixes ys). \<exists>n\<le>length s. w = take n s"
proof -
  obtain ps ss where "ys = ps @ w @ ss"
    using assms unfolding sublist_def by blast
  then have "w @ ss \<in> set (suffixes ys)" "length w \<le> length (w @ ss)" "w = take (length w) (w @ ss)"
    by (simp_all add: suffix_def)
  then show ?thesis
    by blast
qed

lemma unique_match_check:
  assumes "\<forall>s\<in>set (suffixes ys). \<forall>n\<in>set (match_lengths p s). take n s = u"
  shows "\<forall>w. sublist w ys \<and> accepts p w \<longrightarrow> w = u"
proof (intro allI impI, elim conjE)
  fix w
  assume "sublist w ys" and acc: "accepts p w"
  then obtain s n where s: "s \<in> set (suffixes ys)" and n: "n \<le> length s" and w: "w = take n s"
    using sublist_take_suffix by blast
  then have "n \<in> set (match_lengths p s)"
    using acc by (simp add: match_lengths_iff)
  with assms s show "w = u"
    unfolding w by blast
qed

subsection \<open>Matches in the text of the bytes\<close>

text \<open>
  The search runs over \<^verbatim>\<open>str(response.content)\<close>. A match starts with the letter h and
  ends with the letters o and n, which no escape contains behind its backslash, so a
  match is the text of a substring of the bytes, and that substring matches as well.
\<close>

lemma hex_digit_in: "d < 16 \<Longrightarrow> hex_digit d \<in> set ''0123456789abcdef''"
proof -
  assume "d < 16"
  then have "d \<in> {0, 1, 2, 3, 4, 5, 6, 7, 8, 9, 10, 11, 12, 13, 14, 15}"
    by (auto simp: less_Suc_eq numeral_eq_Suc)
  then show ?thesis
    by (auto simp: hex_digit_def)
qed

lemma of_char_div_16: "(of_char (c :: char) :: nat) div 16 < 16"
proof -
  have "n div 16 < 16" if "n < 256" for n :: nat
    using that by arith
  then show ?thesis
    using nat_of_char_less_256 by blast
qed

lemma repr_byte_shape:
  "(repr_byte q c = [c] \<and> c \<noteq> backslash \<and> c \<noteq> q)
   \<or> (\<exists>e es. repr_byte q c = backslash # e # es \<and> e \<in> inner1 q
         \<and> set es \<subseteq> set ''0123456789abcdef'')"
  using hex_digit_in [OF of_char_div_16 [of c]] hex_digit_in [of "of_char c mod 16"]
  by (auto simp: repr_byte_def inner1_def)

lemma repr_byte_nonempty: "repr_byte q c \<noteq> []"
  using repr_byte_shape [of q c] by auto

lemma repr_byte_tl:
  "x \<in> set (tl (repr_byte q c)) \<Longrightarrow> x \<in> inner1 q \<union> set ''0123456789abcdef''"
  using repr_byte_shape [of q c] by auto

lemma concat_repr_align:
  assumes "h \<notin> inner1 q \<union> set ''0123456789abcdef''"
    and "concat (map (repr_byte q) cs) = l @ h # m"
  shows "\<exists>a b. cs = a @ b \<and> l = concat (map (repr_byte q) a)
           \<and> h # m = concat (map (repr_byte q) b)"
  using assms(2)
proof (induction cs arbitrary: l)
  case Nil
  then show ?case by simp
next
  case (Cons c cs)
  let ?E = "repr_byte q"
  from Cons.prems have "?E c @ concat (map ?E cs) = l @ h # m"
    by simp
  then consider us where "?E c = l @ us" "us @ concat (map ?E cs) = h # m"
    | us where "?E c @ us = l" "concat (map ?E cs) = us @ h # m"
    by (auto simp: append_eq_append_conv2)
  then show ?case
  proof cases
    case 1
    show ?thesis
    proof (cases l)
      case Nil
      then have "c # cs = [] @ (c # cs) \<and> l = concat (map ?E []) \<and> h # m = concat (map ?E (c # cs))"
        using Cons.prems by simp
      then show ?thesis by blast
    next
      case (Cons y l')
      show ?thesis
      proof (cases us)
        case Nil
        with 1 have "c # cs = [c] @ cs \<and> l = concat (map ?E [c]) \<and> h # m = concat (map ?E cs)"
          by simp
        then show ?thesis by blast
      next
        case (Cons u us')
        with 1 have "u = h"
          by simp
        with 1 Cons \<open>l = y # l'\<close> have "h \<in> set (tl (?E c))"
          by simp
        with assms(1) repr_byte_tl show ?thesis
          by blast
      qed
    qed
  next
    case 2
    from Cons.IH [OF 2(2)] obtain a b where "cs = a @ b" "us = concat (map ?E a)"
      "h # m = concat (map ?E b)"
      by blast
    with 2 have "c # cs = (c # a) @ b \<and> l = concat (map ?E (c # a)) \<and> h # m = concat (map ?E b)"
      by simp
    then show ?thesis by blast
  qed
qed

lemma concat_repr_head:
  assumes "concat (map (repr_byte q) cs) = x # rest" and "x \<noteq> backslash"
  shows "\<exists>cs'. cs = x # cs' \<and> repr_byte q x = [x] \<and> rest = concat (map (repr_byte q) cs')"
proof (cases cs)
  case Nil
  with assms show ?thesis by simp
next
  case (Cons c cs')
  with assms repr_byte_shape [of q c] show ?thesis
    by auto
qed

lemma concat_repr_literal:
  assumes "concat (map (repr_byte q) cs) = s @ rest" and "backslash \<notin> set s"
  shows "\<exists>cs'. cs = s @ cs' \<and> concat (map (repr_byte q) s) = s
           \<and> rest = concat (map (repr_byte q) cs')"
  using assms
proof (induction s arbitrary: cs)
  case Nil
  then show ?case by simp
next
  case (Cons x s)
  then obtain cs1 where 1: "cs = x # cs1" "repr_byte q x = [x]"
    "s @ rest = concat (map (repr_byte q) cs1)"
    using concat_repr_head [of q cs x "s @ rest"] by auto
  with Cons.IH [of cs1] Cons.prems obtain cs' where "cs1 = s @ cs'"
    "concat (map (repr_byte q) s) = s" "rest = concat (map (repr_byte q) cs')"
    by auto
  with 1 show ?case
    by simp
qed

lemma concat_repr_any:
  assumes "concat (map (repr_byte q) cs) = x # y # rest" and "y \<notin> inner1 q"
  shows "\<exists>cs'. cs = x # cs' \<and> repr_byte q x = [x]
           \<and> y # rest = concat (map (repr_byte q) cs')"
proof (cases cs)
  case Nil
  with assms show ?thesis by simp
next
  case (Cons c cs')
  with assms repr_byte_shape [of q c] show ?thesis
    by auto
qed

lemma inner1_simps:
  assumes "q = apostrophe \<or> q = dquote"
  shows "CHR ''h'' \<notin> inner1 q \<union> set ''0123456789abcdef''"
    and "CHR ''.'' \<notin> inner1 q \<union> set ''0123456789abcdef''"
    and "CHR ''m'' \<notin> inner1 q" and "CHR ''c'' \<notin> inner1 q"
  using assms by (auto simp: inner1_def apostrophe_def dquote_def backslash_def)

lemma repr_byte_dquote: "repr_byte apostrophe dquote = [dquote]"
  by (simp add: repr_byte_def apostrophe_def dquote_def backslash_def)

lemma dquote_in_concat_repr:
  "dquote \<in> set w \<Longrightarrow> dquote \<in> set (concat (map (repr_byte apostrophe) w))"
  using repr_byte_dquote by (induction w) auto

lemma match_preimage:
  assumes q: "q = apostrophe \<or> (q = dquote \<and> dquote \<notin> set cs)"
    and eq: "concat (map (repr_byte q) cs) = l @ m @ r"
    and m: "accepts MICROSOFT_DOWNLOAD_REGEX m"
  shows "\<exists>w. sublist w cs \<and> m = concat (map (repr_byte q) w) \<and> accepts MICROSOFT_DOWNLOAD_REGEX w"
proof -
  let ?E = "repr_byte q"
  have q': "q = apostrophe \<or> q = dquote"
    using q by blast
  note in1 = inner1_simps [OF q']
  have bs: "backslash \<notin> set ''ttps://download''" "backslash \<notin> set ''icrosoft''"
    "backslash \<notin> set ''com/download''" "backslash \<notin> set ''.json''"
    by (simp_all add: backslash_def)
  obtain x y run where m_eq: "m = ''https://download'' @ [x] @ ''microsoft'' @ [y]
      @ ''com/download'' @ run @ ''.json''"
    and x: "x \<noteq> CHR 0x0A" and y: "y \<noteq> CHR 0x0A" and run: "dquote \<notin> set run"
    using m unfolding accepts_MICROSOFT_DOWNLOAD_REGEX by blast
  have "concat (map ?E cs) = l @ CHR ''h'' # (''ttps://download'' @ [x] @ ''microsoft'' @ [y]
      @ ''com/download'' @ run @ ''.json'' @ r)"
    unfolding eq m_eq by simp
  from concat_repr_align [OF in1(1) this] obtain a b where ab: "cs = a @ b"
    and b: "concat (map ?E b) = CHR ''h'' # (''ttps://download'' @ [x] @ ''microsoft'' @ [y]
      @ ''com/download'' @ run @ ''.json'' @ r)"
    by metis
  from concat_repr_head [OF b] obtain b0 where b0: "b = CHR ''h'' # b0"
    and e0: "?E CHR ''h'' = ''h''"
    and r0: "concat (map ?E b0) = ''ttps://download'' @ (x # ''microsoft'' @ [y]
      @ ''com/download'' @ run @ ''.json'' @ r)"
    by (auto simp: backslash_def)
  from concat_repr_literal [OF r0 bs(1)] obtain b1 where b1: "b0 = ''ttps://download'' @ b1"
    and e1: "concat (map ?E ''ttps://download'') = ''ttps://download''"
    and r1: "concat (map ?E b1) = x # CHR ''m'' # (''icrosoft'' @ [y]
      @ ''com/download'' @ run @ ''.json'' @ r)"
    by auto
  from concat_repr_any [OF r1 in1(3)] obtain b2 where b2: "b1 = x # b2"
    and e2: "?E x = [x]"
    and r2: "concat (map ?E b2) = CHR ''m'' # (''icrosoft'' @ [y]
      @ ''com/download'' @ run @ ''.json'' @ r)"
    by auto
  from concat_repr_head [OF r2] obtain b3 where b3: "b2 = CHR ''m'' # b3"
    and e3: "?E CHR ''m'' = ''m''"
    and r3: "concat (map ?E b3) = ''icrosoft'' @ (y # CHR ''c'' # ''om/download'' @ run @ ''.json'' @ r)"
    by (auto simp: backslash_def)
  from concat_repr_literal [OF r3 bs(2)] obtain b4 where b4: "b3 = ''icrosoft'' @ b4"
    and e4: "concat (map ?E ''icrosoft'') = ''icrosoft''"
    and r4: "concat (map ?E b4) = y # CHR ''c'' # (''om/download'' @ run @ ''.json'' @ r)"
    by auto
  from concat_repr_any [OF r4 in1(4)] obtain b5 where b5: "b4 = y # b5"
    and e5: "?E y = [y]"
    and r5: "concat (map ?E b5) = ''com/download'' @ (run @ ''.json'' @ r)"
    by auto
  from concat_repr_literal [OF r5 bs(3)] obtain b6 where b6: "b5 = ''com/download'' @ b6"
    and e6: "concat (map ?E ''com/download'') = ''com/download''"
    and r6: "concat (map ?E b6) = run @ CHR ''.'' # (''json'' @ r)"
    by auto
  from concat_repr_align [OF in1(2) r6] obtain wr b7 where b7: "b6 = wr @ b7"
    and e7: "run = concat (map ?E wr)"
    and r7: "concat (map ?E b7) = ''.json'' @ r"
    by auto
  from concat_repr_literal [OF r7 bs(4)] obtain b8 where b8: "b7 = ''.json'' @ b8"
    and e8: "concat (map ?E ''.json'') = ''.json''"
    by auto
  let ?w = "''https://download'' @ [x] @ ''microsoft'' @ [y] @ ''com/download'' @ wr @ ''.json''"
  have cs: "cs = a @ ?w @ b8"
    unfolding ab b0 b1 b2 b3 b4 b5 b6 b7 b8 by simp
  have wr: "dquote \<notin> set wr"
  proof
    assume d: "dquote \<in> set wr"
    then have "dquote \<in> set cs"
      unfolding cs by simp
    with q have "q = apostrophe"
      by blast
    with d e7 run dquote_in_concat_repr show False
      by blast
  qed
  have "concat (map ?E ?w) = ''h'' @ ''ttps://download'' @ [x] @ ''m'' @ ''icrosoft'' @ [y]
      @ ''com/download'' @ run @ ''.json''"
    unfolding e7
    using e0 e1 e2 e3 e4 e5 e6 e8 by simp
  then have "m = concat (map ?E ?w)"
    unfolding m_eq by simp
  moreover have "accepts MICROSOFT_DOWNLOAD_REGEX ?w"
    unfolding accepts_MICROSOFT_DOWNLOAD_REGEX using x y wr by blast
  moreover have "sublist ?w cs"
    unfolding cs by (rule sublist_appendI)
  ultimately show ?thesis
    by blast
qed

lemma repr_quote_cases:
  "repr_quote bs = apostrophe \<or> (repr_quote bs = dquote \<and> dquote \<notin> set bs)"
  by (simp add: repr_quote_def)

lemma match_in_body:
  assumes q: "q = apostrophe \<or> q = dquote"
    and sub: "sublist m (CHR ''b'' # q # body @ [q])"
    and m: "accepts MICROSOFT_DOWNLOAD_REGEX m"
  shows "\<exists>l r. body = l @ m @ r"
proof -
  obtain m0 where m_eq: "m = CHR ''h'' # m0 @ ''n''"
    using m unfolding accepts_MICROSOFT_DOWNLOAD_REGEX by auto
  have qh: "q \<noteq> CHR ''h''" "q \<noteq> CHR ''n''"
    using q by (auto simp: apostrophe_def dquote_def)
  obtain L R where t: "CHR ''b'' # q # body @ [q] = L @ m @ R"
    using sub by (auto simp: sublist_def)
  then obtain L1 where L: "L = CHR ''b'' # L1" and t1: "q # body @ [q] = L1 @ m @ R"
    unfolding m_eq by (cases L) auto
  then obtain L2 where L1: "L1 = q # L2" and t2: "body @ [q] = L2 @ m @ R"
    unfolding m_eq using qh by (cases L1) auto
  have "R \<noteq> []"
  proof
    assume "R = []"
    with t2 have "last (body @ [q]) = last (L2 @ m)"
      by simp
    then show False
      unfolding m_eq using qh by simp
  qed
  then obtain R1 x where R: "R = R1 @ [x]"
    by (cases R rule: rev_cases) auto
  with t2 have "body @ [q] = (L2 @ m @ R1) @ [x]"
    by simp
  then have "body = L2 @ m @ R1"
    by (simp only: append1_eq_conv)
  then show ?thesis
    by blast
qed

lemma repr_byte_plain:
  assumes "q = apostrophe \<or> q = dquote"
    and "c \<in> set ''https://download.microsoft.com/download/foo/bar.json''"
  shows "repr_byte q c = [c]"
proof -
  have "list_all (\<lambda>c. repr_byte apostrophe c = [c] \<and> repr_byte dquote c = [c])
      ''https://download.microsoft.com/download/foo/bar.json''"
    by code_simp
  then show ?thesis
    using assms unfolding list_all_iff by blast
qed

lemma concat_repr_plain:
  assumes "q = apostrophe \<or> q = dquote"
    and "set s \<subseteq> set ''https://download.microsoft.com/download/foo/bar.json''"
  shows "concat (map (repr_byte q) s) = s"
  using assms(2)
proof (induction s)
  case Nil
  then show ?case by simp
next
  case (Cons c s)
  then have "repr_byte q c = [c]"
    by (intro repr_byte_plain [OF assms(1)]) simp
  with Cons show ?case
    by simp
qed

lemma str_of_bytes_eq:
  "str_of_bytes bs = CHR ''b'' # repr_quote bs # concat (map (repr_byte (repr_quote bs)) bs)
     @ [repr_quote bs]"
  by (simp add: str_of_bytes_def Let_def)

lemma text_match_unique:
  assumes only: "\<forall>w. sublist w bs \<and> accepts MICROSOFT_DOWNLOAD_REGEX w
      \<longrightarrow> w = ''https://download.microsoft.com/download/foo/bar.json''"
    and sub: "sublist m (str_of_bytes bs)" and m: "accepts MICROSOFT_DOWNLOAD_REGEX m"
  shows "m = ''https://download.microsoft.com/download/foo/bar.json''"
proof -
  let ?q = "repr_quote bs"
  have q: "?q = apostrophe \<or> (?q = dquote \<and> dquote \<notin> set bs)"
    by (rule repr_quote_cases)
  then have q': "?q = apostrophe \<or> ?q = dquote"
    by blast
  obtain l r where "concat (map (repr_byte ?q) bs) = l @ m @ r"
    using match_in_body [OF q' sub [unfolded str_of_bytes_eq] m] by blast
  from match_preimage [OF q this m] obtain w where w: "sublist w bs"
    "m = concat (map (repr_byte ?q) w)" "accepts MICROSOFT_DOWNLOAD_REGEX w"
    by blast
  with only have "w = ''https://download.microsoft.com/download/foo/bar.json''"
    by blast
  with w(2) concat_repr_plain [OF q', of w] show ?thesis
    by simp
qed

lemma str_of_bytes_sublist:
  assumes "sublist u bs" and "concat (map (repr_byte (repr_quote bs)) u) = u"
  shows "sublist u (str_of_bytes bs)"
proof -
  define q where "q = repr_quote bs"
  obtain a b where bs: "bs = a @ u @ b"
    using assms(1) unfolding sublist_def by blast
  have u: "concat (map (repr_byte q) u) = u"
    using assms(2) by (simp only: q_def)
  have "concat (map (repr_byte q) bs)
      = concat (map (repr_byte q) a) @ u @ concat (map (repr_byte q) b)"
    by (subst bs) (simp only: map_append concat_append u)
  moreover have "str_of_bytes bs = CHR ''b'' # q # concat (map (repr_byte q) bs) @ [q]"
    by (simp only: str_of_bytes_eq q_def)
  ultimately have "str_of_bytes bs
      = (CHR ''b'' # q # concat (map (repr_byte q) a)) @ u @ (concat (map (repr_byte q) b) @ [q])"
    by simp
  then show ?thesis
    unfolding sublist_def by blast
qed

lemma text_contains:
  assumes "sublist ''https://download.microsoft.com/download/foo/bar.json'' bs"
  shows "sublist ''https://download.microsoft.com/download/foo/bar.json'' (str_of_bytes bs)"
proof -
  have "repr_quote bs = apostrophe \<or> repr_quote bs = dquote"
    using repr_quote_cases by blast
  then have "concat (map (repr_byte (repr_quote bs))
      ''https://download.microsoft.com/download/foo/bar.json'')
      = ''https://download.microsoft.com/download/foo/bar.json''"
    by (rule concat_repr_plain) (rule subset_refl)
  with assms show ?thesis
    by (rule str_of_bytes_sublist)
qed

subsection \<open>Pages that print as themselves\<close>

text \<open>
  A page prints as itself when its bytes are printable ASCII other than the backslash
  and it does not hold both an apostrophe and a double quote. The text searched is then
  the page between the letter b and two quotes, which neither start nor end a match: the
  matches found are those of the page.
\<close>

lemma repr_byte_self_iff:
  "repr_byte q c = [c]
   \<longleftrightarrow> c \<noteq> q \<and> c \<noteq> backslash \<and> 32 \<le> (of_char c :: nat) \<and> (of_char c :: nat) < 127"
proof -
  have "(of_char (CHR 0x09) :: nat) = 9" "(of_char (CHR 0x0A) :: nat) = 10"
    "(of_char (CHR 0x0D) :: nat) = 13"
    by simp_all
  then show ?thesis
    by (auto simp: repr_byte_def backslash_def)
qed

lemma prints_as_itself_iff:
  "prints_as_itself bs
   \<longleftrightarrow> (\<forall>c\<in>set bs. c \<noteq> backslash \<and> 32 \<le> (of_char c :: nat) \<and> (of_char c :: nat) < 127)
       \<and> \<not> (apostrophe \<in> set bs \<and> dquote \<in> set bs)"
  unfolding prints_as_itself_def list_all_iff repr_byte_self_iff
  by (auto simp: repr_quote_def)

lemma re_match_snoc:
  "snoc_safe q p \<Longrightarrow> re_match p (s @ [q]) = re_match p s"
proof (induction p s rule: re_match.induct)
  case (1 s)
  then show ?case by simp
next
  case (2 c r)
  then show ?case by (simp split: if_splits)
next
  case (3 c r x xs)
  then show ?case by simp
next
  case (4 c r)
  then show ?case by (auto split: option.splits)
next
  case (5 c r x xs)
  then show ?case by (auto split: option.splits)
qed

lemma findall_snoc:
  "snoc_safe q p \<Longrightarrow> re_match p [] = None \<Longrightarrow> findall p (s @ [q]) = findall p s"
proof (induction p s rule: findall.induct)
  case (1 p)
  then have "re_match p [q] = None"
    using re_match_snoc [of q p "[]"] by simp
  with 1 show ?case
    by simp
next
  case (2 p x xs)
  have eq: "re_match p (x # xs @ [q]) = re_match p (x # xs)"
    using re_match_snoc [of q p "x # xs"] "2.prems" by simp
  show ?case
  proof (cases "re_match p (x # xs)")
    case None
    with 2 eq show ?thesis by simp
  next
    case (Some n)
    then have n: "n \<le> length (x # xs)"
      using re_match_sound by blast
    then have "drop (n - 1) (xs @ [q]) = drop (n - 1) xs @ [q]"
      by simp
    moreover have "take n (x # xs @ [q]) = take n (x # xs)"
      using n take_append [of n "x # xs" "[q]"] by simp
    ultimately show ?thesis
      using 2 eq Some by simp
  qed
qed

lemma snoc_safe_regex:
  "snoc_safe apostrophe MICROSOFT_DOWNLOAD_REGEX" "snoc_safe dquote MICROSOFT_DOWNLOAD_REGEX"
  "re_match MICROSOFT_DOWNLOAD_REGEX [] = None"
  by code_simp+

lemma findall_skip:
  assumes "c \<noteq> CHR ''h''"
  shows "findall MICROSOFT_DOWNLOAD_REGEX (c # s) = findall MICROSOFT_DOWNLOAD_REGEX s"
proof -
  have "re_match MICROSOFT_DOWNLOAD_REGEX (c # s) = None"
    using assms by (simp add: MICROSOFT_DOWNLOAD_REGEX_def literal_def)
  then show ?thesis
    by simp
qed

lemma str_of_bytes_plain:
  assumes "prints_as_itself bs"
  shows "str_of_bytes bs = CHR ''b'' # repr_quote bs # bs @ [repr_quote bs]"
proof -
  have "concat (map f cs) = cs" if "\<forall>c\<in>set cs. f c = [c]" for f :: "char \<Rightarrow> string" and cs
    using that by (induction cs) simp_all
  then have "concat (map (repr_byte (repr_quote bs)) bs) = bs"
    using assms by (simp add: prints_as_itself_def list_all_iff)
  then show ?thesis
    by (simp add: str_of_bytes_eq)
qed

lemma findall_plain:
  assumes "prints_as_itself bs"
  shows "findall MICROSOFT_DOWNLOAD_REGEX (str_of_bytes bs) = findall MICROSOFT_DOWNLOAD_REGEX bs"
proof -
  let ?q = "repr_quote bs"
  have q: "?q = apostrophe \<or> ?q = dquote"
    using repr_quote_cases by blast
  then have qh: "?q \<noteq> CHR ''h''"
    by (auto simp: apostrophe_def dquote_def)
  have "findall MICROSOFT_DOWNLOAD_REGEX (str_of_bytes bs)
      = findall MICROSOFT_DOWNLOAD_REGEX (?q # bs @ [?q])"
    unfolding str_of_bytes_plain [OF assms] by (rule findall_skip) simp
  also have "\<dots> = findall MICROSOFT_DOWNLOAD_REGEX (bs @ [?q])"
    using qh by (rule findall_skip)
  also have "\<dots> = findall MICROSOFT_DOWNLOAD_REGEX bs"
    using q snoc_safe_regex by (auto intro: findall_snoc)
  finally show ?thesis .
qed

text \<open>
  C9, as stated, fails. On a page with two links between apostrophes both links are
  substrings that match, and the result is neither: it is the one stretch from the start
  of the first link to the end of the second. On a page whose link has a tab for the
  first dot of the host name the link matches and the result is empty.
\<close>

theorem get_azure_ip_ranges_download_misses:
  "sublist ''https://download.microsoft.com/download/a.json''
     ([apostrophe] @ ''https://download.microsoft.com/download/a.json'' @ [apostrophe, apostrophe]
      @ ''https://download.microsoft.com/download/b.json'' @ [apostrophe])
   \<and> accepts MICROSOFT_DOWNLOAD_REGEX ''https://download.microsoft.com/download/a.json''
   \<and> sublist ''https://download.microsoft.com/download/b.json''
     ([apostrophe] @ ''https://download.microsoft.com/download/a.json'' @ [apostrophe, apostrophe]
      @ ''https://download.microsoft.com/download/b.json'' @ [apostrophe])
   \<and> accepts MICROSOFT_DOWNLOAD_REGEX ''https://download.microsoft.com/download/b.json''
   \<and> get_azure_ip_ranges_download (Inr \<lparr>status_code = 200, content =
       [apostrophe] @ ''https://download.microsoft.com/download/a.json'' @ [apostrophe, apostrophe]
       @ ''https://download.microsoft.com/download/b.json'' @ [apostrophe]\<rparr>)
     = Inr [''https://download.microsoft.com/download/a.json'' @ [apostrophe, apostrophe]
            @ ''https://download.microsoft.com/download/b.json'']
   \<and> sublist (''https://download'' @ [CHR 0x09] @ ''microsoft.com/download/a.json'')
     ([dquote] @ ''https://download'' @ [CHR 0x09] @ ''microsoft.com/download/a.json'' @ [dquote])
   \<and> accepts MICROSOFT_DOWNLOAD_REGEX
       (''https://download'' @ [CHR 0x09] @ ''microsoft.com/download/a.json'')
   \<and> get_azure_ip_ranges_download (Inr \<lparr>status_code = 200, content =
       [dquote] @ ''https://download'' @ [CHR 0x09] @ ''microsoft.com/download/a.json''
       @ [dquote]\<rparr>)
     = Inr []"
  by code_simp

text \<open>
  C9, amended. When the page was fetched with a good status,
  \<open>get_azure_ip_ranges_download\<close> returns, however many substrings match, a list without
  duplicates. On a page that prints as itself this list holds the matches that
  \<^verbatim>\<open>findall\<close> reports in the page, each once: each is a substring of the page that
  matches the pattern, and there is one whenever some substring of the page matches.
  When the content holds the URL
  \<^verbatim>\<open>https://download.microsoft.com/download/foo/bar.json\<close> and no other substring of it
  matches the pattern, the result is that one URL.
\<close>

theorem get_azure_ip_ranges_download_plain:
  assumes "raise_for_status response = Inr ()"
  shows "(\<exists>files. get_azure_ip_ranges_download (Inr response) = Inr files \<and> distinct files)
         \<and> (prints_as_itself (content response)
             \<longrightarrow> get_azure_ip_ranges_download (Inr response)
                   = Inr (remdups (findall MICROSOFT_DOWNLOAD_REGEX (content response)))
                 \<and> (\<forall>f\<in>set (findall MICROSOFT_DOWNLOAD_REGEX (content response)).
                       sublist f (content response) \<and> accepts MICROSOFT_DOWNLOAD_REGEX f)
                 \<and> ((\<exists>w. sublist w (content response) \<and> accepts MICROSOFT_DOWNLOAD_REGEX w)
                      \<longrightarrow> findall MICROSOFT_DOWNLOAD_REGEX (content response) \<noteq> []))
         \<and> (sublist ''https://download.microsoft.com/download/foo/bar.json'' (content response)
             \<and> (\<forall>w. sublist w (content response) \<and> accepts MICROSOFT_DOWNLOAD_REGEX w
                    \<longrightarrow> w = ''https://download.microsoft.com/download/foo/bar.json'')
             \<longrightarrow> get_azure_ip_ranges_download (Inr response)
                   = Inr [''https://download.microsoft.com/download/foo/bar.json''])"
proof -
  let ?u = "''https://download.microsoft.com/download/foo/bar.json''"
  let ?c = "content response"
  let ?fs = "findall MICROSOFT_DOWNLOAD_REGEX (str_of_bytes ?c)"
  have res: "get_azure_ip_ranges_download (Inr response) = Inr (remdups ?fs)"
    using assms by (simp add: get_azure_ip_ranges_download_def)
  then have ret: "\<exists>files. get_azure_ip_ranges_download (Inr response) = Inr files \<and> distinct files"
    by simp
  have plain: "get_azure_ip_ranges_download (Inr response)
      = Inr (remdups (findall MICROSOFT_DOWNLOAD_REGEX ?c))"
    if "prints_as_itself ?c"
    unfolding res findall_plain [OF that] ..
  have snd: "\<forall>f\<in>set (findall MICROSOFT_DOWNLOAD_REGEX ?c).
      sublist f ?c \<and> accepts MICROSOFT_DOWNLOAD_REGEX f"
    using findall_sound by blast
  have ne: "findall MICROSOFT_DOWNLOAD_REGEX ?c \<noteq> []"
    if "\<exists>w. sublist w ?c \<and> accepts MICROSOFT_DOWNLOAD_REGEX w"
    using that findall_nonempty by blast
  have one: "get_azure_ip_ranges_download (Inr response) = Inr [?u]"
    if c: "sublist ?u ?c"
      and only: "\<forall>w. sublist w ?c \<and> accepts MICROSOFT_DOWNLOAD_REGEX w \<longrightarrow> w = ?u"
  proof -
    have "remdups ?fs = [?u]"
    proof (rule remdups_singleton)
      have "accepts MICROSOFT_DOWNLOAD_REGEX ?u"
        unfolding accepts_MICROSOFT_DOWNLOAD_REGEX
        by (intro exI [of _ "CHR ''.''"] exI [of _ "''/foo/bar''"]) (simp add: dquote_def)
      with text_contains [OF c] show "?fs \<noteq> []"
        by (rule findall_nonempty)
      show "\<forall>f\<in>set ?fs. f = ?u"
        using findall_sound text_match_unique [OF only] by blast
    qed
    with res show ?thesis
      by simp
  qed
  show ?thesis
    using ret plain snd ne one by blast
qed

theorem get_azure_ip_ranges_download_plain_witness:
  "raise_for_status \<lparr>status_code = 200, content = ''<a href='' @ [dquote]
      @ ''https://download.microsoft.com/download/foo/bar.json'' @ [dquote] @ ''>''\<rparr> = Inr ()
   \<and> sublist ''https://download.microsoft.com/download/foo/bar.json'' (''<a href='' @ [dquote]
      @ ''https://download.microsoft.com/download/foo/bar.json'' @ [dquote] @ ''>'')
   \<and> get_azure_ip_ranges_download (Inr \<lparr>status_code = 200, content = ''<a href='' @ [dquote]
      @ ''https://download.microsoft.com/download/foo/bar.json'' @ [dquote] @ ''>''\<rparr>)
     = Inr [''https://download.microsoft.com/download/foo/bar.json'']
   \<and> prints_as_itself ([dquote]
      @ ''https://download.microsoft.com/download/a.json'' @ [dquote, dquote]
      @ ''https://download.microsoft.com/download/b.json'' @ [dquote, dquote]
      @ ''https://download.microsoft.com/download/a.json'' @ [dquote])
   \<and> findall MICROSOFT_DOWNLOAD_REGEX ([dquote]
      @ ''https://download.microsoft.com/download/a.json'' @ [dquote, dquote]
      @ ''https://download.microsoft.com/download/b.json'' @ [dquote, dquote]
      @ ''https://download.microsoft.com/download/a.json'' @ [dquote])
     = [''https://download.microsoft.com/download/a.json'',
        ''https://download.microsoft.com/download/b.json'',
        ''https://download.microsoft.com/download/a.json'']
   \<and> (\<exists>files. get_azure_ip_ranges_download (Inr \<lparr>status_code = 200, content = [dquote]
      @ ''https://download.microsoft.com/download/a.json'' @ [dquote, dquote]
      @ ''https://download.microsoft.com/download/b.json'' @ [dquote, dquote]
      @ ''https://download.microsoft.com/download/a.json'' @ [dquote]\<rparr>) = Inr files
        \<and> distinct files
        \<and> set files = {''https://download.microsoft.com/download/a.json'',
                        ''https://download.microsoft.com/download/b.json''})"
proof -
  let ?u = "''https://download.microsoft.com/download/foo/bar.json''"
  let ?page = "''<a href='' @ [dquote] @ ?u @ [dquote] @ ''>''"
  let ?r = "\<lparr>status_code = 200, content = ?page\<rparr>"
  let ?page2 = "[dquote] @ ''https://download.microsoft.com/download/a.json'' @ [dquote, dquote]
      @ ''https://download.microsoft.com/download/b.json'' @ [dquote, dquote]
      @ ''https://download.microsoft.com/download/a.json'' @ [dquote]"
  let ?r2 = "\<lparr>status_code = 200, content = ?page2\<rparr>"
  have ok: "raise_for_status ?r = Inr ()"
    by (simp add: raise_for_status_def)
  have ok2: "raise_for_status ?r2 = Inr ()"
    by (simp add: raise_for_status_def)
  have sub: "sublist ?u ?page"
    unfolding sublist_def
    by (intro exI [of _ "''<a href='' @ [dquote]"] exI [of _ "[dquote] @ ''>''"]) simp
  have "\<forall>s\<in>set (suffixes ?page).
      \<forall>n\<in>set (match_lengths MICROSOFT_DOWNLOAD_REGEX s). take n s = ?u"
    by code_simp
  then have only: "\<forall>w. sublist w ?page \<and> accepts MICROSOFT_DOWNLOAD_REGEX w \<longrightarrow> w = ?u"
    by (rule unique_match_check)
  have c1: "content ?r = ?page"
    by (rule response.select_convs)
  have one: "get_azure_ip_ranges_download (Inr ?r) = Inr [?u]"
    using get_azure_ip_ranges_download_plain [OF ok] sub only unfolding c1 by blast
  define files2 where "files2 = findall MICROSOFT_DOWNLOAD_REGEX ?page2"
  have f2: "files2 = [''https://download.microsoft.com/download/a.json'',
      ''https://download.microsoft.com/download/b.json'',
      ''https://download.microsoft.com/download/a.json'']"
    unfolding files2_def by code_simp
  have p2: "prints_as_itself ?page2"
    by code_simp
  have c2: "content ?r2 = ?page2"
    by (rule response.select_convs)
  have "get_azure_ip_ranges_download (Inr ?r2) = Inr (remdups files2)"
    using get_azure_ip_ranges_download_plain [OF ok2] p2 unfolding c2 files2_def by blast
  moreover have "distinct (remdups files2)"
    by simp
  moreover have "set (remdups files2) = {''https://download.microsoft.com/download/a.json'',
      ''https://download.microsoft.com/download/b.json''}"
    unfolding f2 by auto
  ultimately have two: "\<exists>files. get_azure_ip_ranges_download (Inr ?r2) = Inr files
      \<and> distinct files
      \<and> set files = {''https://download.microsoft.com/download/a.json'',
                      ''https://download.microsoft.com/download/b.json''}"
    by blast
  show ?thesis
    using ok sub one p2 f2 [unfolded files2_def] two by blast
qed

section \<open>The range document\<close>

text \<open>
  C3. \<open>parse_azure_ip_ranges\<close> returns \<^verbatim>\<open>None\<close> for every document that was fetched
  with a good status, whatever its content: it returns no range document and records
  no skipped entry.
\<close>

theorem parse_azure_ip_ranges_returns_None:
  "parse_azure_ip_ranges (Inr \<lparr>status_code = 200, content = document\<rparr>) = Inr ()"
  by (simp add: parse_azure_ip_ranges_def raise_for_status_def)

section \<open>The membership scan\<close>

text \<open>
  C5. A block whose parse raises \<open>AddressValueError\<close> is passed over, but a block with a
  prefix length out of range raises \<open>NetmaskValueError\<close> and a block with host bits set
  raises \<open>ValueError\<close>, and neither is caught: the call raises.
\<close>

theorem reverse_search_ip_in_azure_block_raises:
  "IPv4Address ''10.0.0.1'' = Inr 167772161
   \<and> reverse_search_ip_in_azure ''10.0.0.1''
        \<lparr>values_list = [\<lparr>name = ''AzureCloud'',
           properties = \<lparr>addressPrefixes = [''not-a-cidr'', ''10.0.0.0/8'']\<rparr>\<rparr>]\<rparr>
       = Inr [\<lparr>name = ''AzureCloud'',
           properties = \<lparr>addressPrefixes = [''not-a-cidr'', ''10.0.0.0/8'']\<rparr>\<rparr>]
   \<and> reverse_search_ip_in_azure ''10.0.0.1''
        \<lparr>values_list = [\<lparr>name = ''AzureCloud'',
           properties = \<lparr>addressPrefixes = [''10.0.0.0/33'', ''10.0.0.0/8'']\<rparr>\<rparr>]\<rparr>
       = Inl NetmaskValueError
   \<and> reverse_search_ip_in_azure ''10.0.0.1''
        \<lparr>values_list = [\<lparr>name = ''AzureCloud'',
           properties = \<lparr>addressPrefixes = [''10.0.0.1/8'', ''10.0.0.0/8'']\<rparr>\<rparr>]\<rparr>
       = Inl ValueError"
  by code_simp

subsection \<open>The scan in closed form\<close>

text \<open>
  With a valid \<open>ip\<close> and blocks that pass the scan, the inner loop appends the category
  once for each block that contains the address, and the outer loop does so category by
  category. With an invalid \<open>ip\<close> the handler catches the failure at every block that
  parses, and nothing is appended.
\<close>

lemma search_ranges_valid_ip:
  assumes "IPv4Address ip = Inr a" and "\<forall>s\<in>set ranges. passes_scan s"
  shows "search_ranges ip cat ranges search
         = Inr (search @ replicate (length (filter (in_block a) ranges)) cat)"
  using assms(2)
proof (induction ranges arbitrary: search)
  case Nil
  then show ?case by simp
next
  case (Cons s ranges)
  then show ?case
    using assms(1)
    by (auto simp: passes_scan_def in_block_def replicate_append_same split: sum.splits)
qed

lemma search_categories_valid_ip:
  assumes "IPv4Address ip = Inr a"
    and "\<forall>c\<in>set cats. \<forall>s\<in>set (addressPrefixes (properties c)). passes_scan s"
  shows "search_categories ip cats search
         = Inr (search @ concat (map (\<lambda>c. replicate (length (matching_blocks a c)) c) cats))"
  using assms(2)
proof (induction cats arbitrary: search)
  case Nil
  then show ?case by simp
next
  case (Cons c cats)
  then show ?case
    by (simp add: search_ranges_valid_ip [OF assms(1)] matching_blocks_def)
qed

lemma IPv4Address_error: "IPv4Address ip = Inl e \<Longrightarrow> e = AddressValueError"
  by (auto simp: IPv4Address_def ip_int_from_string_def Let_def split: if_splits sum.splits)

lemma search_ranges_invalid_ip:
  assumes "IPv4Address ip = Inl e" and "\<forall>s\<in>set ranges. passes_scan s"
  shows "search_ranges ip cat ranges search = Inr search"
  using assms(2)
proof (induction ranges)
  case Nil
  then show ?case by simp
next
  case (Cons s ranges)
  have "e = AddressValueError"
    using assms(1) by (rule IPv4Address_error)
  with Cons assms(1) show ?case
    by (auto simp: passes_scan_def split: sum.splits)
qed

lemma search_categories_invalid_ip:
  assumes "IPv4Address ip = Inl e"
    and "\<forall>c\<in>set cats. \<forall>s\<in>set (addressPrefixes (properties c)). passes_scan s"
  shows "search_categories ip cats search = Inr search"
  using assms(2)
  by (induction cats) (simp_all add: search_ranges_invalid_ip [OF assms(1)])

lemma count_list_replicate: "count_list (replicate k x) c = (if x = c then k else 0)"
  by (induction k) auto

lemma count_list_concat_replicate:
  "count_list (concat (map (\<lambda>c. replicate (f c) c) cats)) c = count_list cats c * f c"
  by (induction cats) (auto simp: count_list_replicate)

lemma concat_replicate_none:
  "\<forall>c\<in>set cats. f c = 0 \<Longrightarrow> concat (map (\<lambda>c. replicate (f c) c) cats) = []"
  by (induction cats) auto

lemma matching_blocks_none:
  "\<forall>s\<in>set (addressPrefixes (properties c)). \<not> in_block a s \<Longrightarrow> matching_blocks a c = []"
  by (simp add: matching_blocks_def)

text \<open>
  C1, as stated, fails: an address in two blocks of one category gets the category twice.
\<close>

theorem reverse_search_ip_in_azure_twice:
  "IPv4Address ''185.56.64.7'' = Inr 3107471367
   \<and> in_block 3107471367 ''185.56.64.0/24'' \<and> in_block 3107471367 ''185.56.64.0/22''
   \<and> reverse_search_ip_in_azure ''185.56.64.7''
        \<lparr>values_list = [\<lparr>name = ''T2_EU'',
           properties = \<lparr>addressPrefixes = [''185.56.64.0/24'', ''185.56.64.0/22'']\<rparr>\<rparr>]\<rparr>
       = Inr [\<lparr>name = ''T2_EU'',
                properties = \<lparr>addressPrefixes = [''185.56.64.0/24'', ''185.56.64.0/22'']\<rparr>\<rparr>,
              \<lparr>name = ''T2_EU'',
                properties = \<lparr>addressPrefixes = [''185.56.64.0/24'', ''185.56.64.0/22'']\<rparr>\<rparr>]"
  by code_simp

text \<open>
  C1, amended. For a valid \<open>ip\<close> and a document whose blocks pass the scan, the call
  returns, and a category stands in the result once for each of its blocks that contains
  the address (for each time the category itself is listed in the document).
\<close>

theorem reverse_search_ip_in_azure_count:
  assumes "IPv4Address ip = Inr a"
    and "\<forall>c\<in>set (values_list doc). \<forall>s\<in>set (addressPrefixes (properties c)). passes_scan s"
  shows "\<exists>r. reverse_search_ip_in_azure ip doc = Inr r
           \<and> (\<forall>c. count_list r c = count_list (values_list doc) c * length (matching_blocks a c))"
  by (simp add: reverse_search_ip_in_azure_def search_categories_valid_ip [OF assms]
      count_list_concat_replicate)

theorem reverse_search_ip_in_azure_count_witness:
  "IPv4Address ''185.56.64.7'' = Inr 3107471367
   \<and> passes_scan ''185.56.64.0/24'' \<and> passes_scan ''185.56.64.0/22''
   \<and> (\<exists>r. reverse_search_ip_in_azure ''185.56.64.7''
              \<lparr>values_list = [\<lparr>name = ''T2_EU'',
                 properties = \<lparr>addressPrefixes = [''185.56.64.0/24'', ''185.56.64.0/22'']\<rparr>\<rparr>]\<rparr>
             = Inr r
           \<and> count_list r \<lparr>name = ''T2_EU'',
                 properties = \<lparr>addressPrefixes = [''185.56.64.0/24'', ''185.56.64.0/22'']\<rparr>\<rparr> = 2)"
proof -
  let ?cat = "\<lparr>name = ''T2_EU'',
    properties = \<lparr>addressPrefixes = [''185.56.64.0/24'', ''185.56.64.0/22'']\<rparr>\<rparr>"
  have a: "IPv4Address ''185.56.64.7'' = Inr 3107471367" by code_simp
  have p1: "passes_scan ''185.56.64.0/24''" by code_simp
  have p2: "passes_scan ''185.56.64.0/22''" by code_simp
  have m: "length (matching_blocks 3107471367 ?cat) = 2" by code_simp
  have "\<forall>c\<in>set (values_list \<lparr>values_list = [?cat]\<rparr>).
          \<forall>s\<in>set (addressPrefixes (properties c)). passes_scan s"
    using p1 p2 by simp
  from reverse_search_ip_in_azure_count [OF a this] m a p1 p2 show ?thesis
    by auto
qed

text \<open>
  C4, as stated, fails: with an \<open>ip\<close> that is no IPv4 address the call returns the empty
  list.
\<close>

theorem reverse_search_ip_in_azure_invalid_ip_empty:
  "IPv4Address ''10.0.0.256'' = Inl AddressValueError
   \<and> reverse_search_ip_in_azure ''10.0.0.256''
        \<lparr>values_list = [\<lparr>name = ''AzureCloud'',
           properties = \<lparr>addressPrefixes = [''10.0.0.0/8'']\<rparr>\<rparr>]\<rparr>
       = Inr []"
  by code_simp

text \<open>
  C4, amended. For an \<open>ip\<close> that is not a valid IPv4 address and a document whose blocks
  pass the scan, the call raises nothing and returns the empty list.
\<close>

theorem reverse_search_ip_in_azure_invalid_ip:
  assumes "IPv4Address ip = Inl e"
    and "\<forall>c\<in>set (values_list doc). \<forall>s\<in>set (addressPrefixes (properties c)). passes_scan s"
  shows "reverse_search_ip_in_azure ip doc = Inr []"
  by (simp add: reverse_search_ip_in_azure_def search_categories_invalid_ip [OF assms])

theorem reverse_search_ip_in_azure_invalid_ip_witness:
  "IPv4Address ''not-an-ip'' = Inl AddressValueError
   \<and> passes_scan ''185.56.64.0/24'' \<and> passes_scan ''2603:1000::/48''
   \<and> reverse_search_ip_in_azure ''not-an-ip''
        \<lparr>values_list = [\<lparr>name = ''T2_EU'',
           properties = \<lparr>addressPrefixes = [''185.56.64.0/24'', ''2603:1000::/48'']\<rparr>\<rparr>]\<rparr>
       = Inr []"
proof -
  let ?doc = "\<lparr>values_list = [\<lparr>name = ''T2_EU'',
    properties = \<lparr>addressPrefixes = [''185.56.64.0/24'', ''2603:1000::/48'']\<rparr>\<rparr>]\<rparr>"
  have a: "IPv4Address ''not-an-ip'' = Inl AddressValueError" by code_simp
  have p: "passes_scan ''185.56.64.0/24''" "passes_scan ''2603:1000::/48''"
    by code_simp+
  have ok: "\<forall>c\<in>set (values_list ?doc). \<forall>s\<in>set (addressPrefixes (properties c)). passes_scan s"
    using p by simp
  from reverse_search_ip_in_azure_invalid_ip [OF a ok] a p show ?thesis
    by simp
qed

text \<open>
  On a document whose blocks pass the scan the result is as follows, for a valid \<open>ip\<close>:
  it is empty when no block of any category contains the address; it is the one category
  \<open>c\<close> when one block of \<open>c\<close> contains the address and no other block of \<open>c\<close> or of
  another category does; and it runs through the categories in the order of the document,
  each repeated once for each of its blocks that contains the address.
\<close>

lemma reverse_search_ip_in_azure_result:
  assumes "IPv4Address ip = Inr a"
    and "\<forall>c\<in>set (values_list doc). \<forall>s\<in>set (addressPrefixes (properties c)). passes_scan s"
  shows "((\<forall>c\<in>set (values_list doc). \<forall>s\<in>set (addressPrefixes (properties c)). \<not> in_block a s)
            \<longrightarrow> reverse_search_ip_in_azure ip doc = Inr [])
         \<and> (\<forall>pre c post bpre b bpost.
               values_list doc = pre @ [c] @ post
               \<and> addressPrefixes (properties c) = bpre @ [b] @ bpost
               \<and> in_block a b
               \<and> (\<forall>s\<in>set (bpre @ bpost). \<not> in_block a s)
               \<and> (\<forall>c'\<in>set (pre @ post). \<forall>s\<in>set (addressPrefixes (properties c')). \<not> in_block a s)
               \<longrightarrow> reverse_search_ip_in_azure ip doc = Inr [c])
         \<and> reverse_search_ip_in_azure ip doc
             = Inr (concat (map (\<lambda>c. replicate (length (matching_blocks a c)) c) (values_list doc)))"
proof -
  let ?f = "\<lambda>c. replicate (length (matching_blocks a c)) c"
  have closed: "reverse_search_ip_in_azure ip doc = Inr (concat (map ?f (values_list doc)))"
    by (simp add: reverse_search_ip_in_azure_def search_categories_valid_ip [OF assms])
  have none: "concat (map ?f cats) = []"
    if "\<forall>c\<in>set cats. \<forall>s\<in>set (addressPrefixes (properties c)). \<not> in_block a s" for cats
    using that by (intro concat_replicate_none) (simp add: matching_blocks_none)
  have one: "concat (map ?f (values_list doc)) = [c]"
    if v: "values_list doc = pre @ [c] @ post"
      and b: "addressPrefixes (properties c) = bpre @ [b] @ bpost" "in_block a b"
        "\<forall>s\<in>set (bpre @ bpost). \<not> in_block a s"
      and o: "\<forall>c'\<in>set (pre @ post). \<forall>s\<in>set (addressPrefixes (properties c')). \<not> in_block a s"
    for pre c post bpre b bpost
  proof -
    have m: "?f c = [c]"
      using b by (simp add: matching_blocks_def)
    have p1: "concat (map ?f pre) = []"
      using o by (intro none) auto
    have p2: "concat (map ?f post) = []"
      using o by (intro none) auto
    have "concat (map ?f (pre @ [c] @ post))
          = concat (map ?f pre) @ ?f c @ concat (map ?f post)"
      by simp
    then show ?thesis
      unfolding v p1 p2 m by simp
  qed
  show ?thesis
    using closed none one by (auto simp del: append.simps)
qed

lemma reverse_search_ip_in_azure_result_example:
  "IPv4Address ''185.56.64.7'' = Inr 3107471367 \<and> IPv4Address ''8.8.8.8'' = Inr 134744072
   \<and> passes_scan ''10.0.0.0/8'' \<and> passes_scan ''2603:1000::/48''
   \<and> passes_scan ''185.56.64.0/24''
   \<and> in_block 3107471367 ''185.56.64.0/24''
   \<and> reverse_search_ip_in_azure ''8.8.8.8''
        \<lparr>values_list =
          [\<lparr>name = ''AzureCloud'',
             properties = \<lparr>addressPrefixes = [''10.0.0.0/8'', ''2603:1000::/48'']\<rparr>\<rparr>,
           \<lparr>name = ''T2_EU'', properties = \<lparr>addressPrefixes = [''185.56.64.0/24'']\<rparr>\<rparr>]\<rparr>
       = Inr []
   \<and> reverse_search_ip_in_azure ''185.56.64.7''
        \<lparr>values_list =
          [\<lparr>name = ''AzureCloud'',
             properties = \<lparr>addressPrefixes = [''10.0.0.0/8'', ''2603:1000::/48'']\<rparr>\<rparr>,
           \<lparr>name = ''T2_EU'', properties = \<lparr>addressPrefixes = [''185.56.64.0/24'']\<rparr>\<rparr>]\<rparr>
       = Inr [\<lparr>name = ''T2_EU'', properties = \<lparr>addressPrefixes = [''185.56.64.0/24'']\<rparr>\<rparr>]"
proof -
  let ?A = "\<lparr>name = ''AzureCloud'',
    properties = \<lparr>addressPrefixes = [''10.0.0.0/8'', ''2603:1000::/48'']\<rparr>\<rparr>"
  let ?B = "\<lparr>name = ''T2_EU'', properties = \<lparr>addressPrefixes = [''185.56.64.0/24'']\<rparr>\<rparr>"
  let ?doc = "\<lparr>values_list = [?A, ?B]\<rparr>"
  have a1: "IPv4Address ''185.56.64.7'' = Inr 3107471367" by code_simp
  have a2: "IPv4Address ''8.8.8.8'' = Inr 134744072" by code_simp
  have p: "passes_scan ''10.0.0.0/8''" "passes_scan ''2603:1000::/48''"
    "passes_scan ''185.56.64.0/24''"
    by code_simp+
  have n1: "\<not> in_block 3107471367 ''10.0.0.0/8''" "\<not> in_block 3107471367 ''2603:1000::/48''"
    by code_simp+
  have y1: "in_block 3107471367 ''185.56.64.0/24''" by code_simp
  have n2: "\<not> in_block 134744072 ''10.0.0.0/8''" "\<not> in_block 134744072 ''2603:1000::/48''"
    "\<not> in_block 134744072 ''185.56.64.0/24''"
    by code_simp+
  have ok: "\<forall>c\<in>set (values_list ?doc). \<forall>s\<in>set (addressPrefixes (properties c)). passes_scan s"
    using p by simp
  have none: "\<forall>c\<in>set (values_list ?doc). \<forall>s\<in>set (addressPrefixes (properties c)).
      \<not> in_block 134744072 s"
    using n2 by simp
  have one: "values_list ?doc = [?A] @ [?B] @ []
      \<and> addressPrefixes (properties ?B) = [] @ [''185.56.64.0/24''] @ []
      \<and> in_block 3107471367 ''185.56.64.0/24''
      \<and> (\<forall>s\<in>set ([] @ []). \<not> in_block 3107471367 s)
      \<and> (\<forall>c'\<in>set ([?A] @ []). \<forall>s\<in>set (addressPrefixes (properties c')).
            \<not> in_block 3107471367 s)"
    using n1 y1 by simp
  have r0: "reverse_search_ip_in_azure ''8.8.8.8'' ?doc = Inr []"
    using reverse_search_ip_in_azure_result [OF a2 ok] none by blast
  have r1: "reverse_search_ip_in_azure ''185.56.64.7'' ?doc = Inr [?B]"
    using reverse_search_ip_in_azure_result [OF a1 ok] one by blast
  show ?thesis
    using a1 a2 p y1 r0 r1 by simp
qed

text \<open>
  C8. With a block whose parse raises \<open>NetmaskValueError\<close> the call raises: for an
  address that lies in no block of the document it does not return the empty list, and
  for an address that lies in one block it does not return the category.
\<close>

theorem reverse_search_ip_in_azure_no_block_raises:
  "IPv4Address ''8.8.8.8'' = Inr 134744072
   \<and> \<not> in_block 134744072 ''10.0.0.0/33''
   \<and> reverse_search_ip_in_azure ''8.8.8.8''
        \<lparr>values_list = [\<lparr>name = ''AzureCloud'',
           properties = \<lparr>addressPrefixes = [''10.0.0.0/33'']\<rparr>\<rparr>]\<rparr>
       = Inl NetmaskValueError
   \<and> in_block 134744072 ''8.0.0.0/8''
   \<and> reverse_search_ip_in_azure ''8.8.8.8''
        \<lparr>values_list = [\<lparr>name = ''AzureCloud'',
           properties = \<lparr>addressPrefixes = [''8.0.0.0/8'', ''10.0.0.0/33'']\<rparr>\<rparr>]\<rparr>
       = Inl NetmaskValueError"
  by code_simp

end
